theory Spec2Isabelle
  imports Main "HOL-Library.Sublist"
begin

section \<open>The publisher of \<open>src/Publisher.h\<close> and its environment\<close>

text \<open>
  \<open>tjh::Publisher<Friend, T...>\<close> keeps one field, the list
  \<open>_callbacks\<close> of \<open>std::weak_ptr<std::function<void(T...)>>\<close>, and has two
  member functions: \<open>subscribe\<close> and the protected \<open>publish\<close> (called \<open>fire\<close> in the
  older copy of the header; the two bodies are the same statement for statement).

  A \<open>std::shared_ptr\<close> control block is a cell of a heap, addressed by its index.
  The strong references to it are counted in two parts: \<open>owners\<close>, the
  \<open>shared_ptr\<close> instances held by listeners, and \<open>pins\<close>, the temporaries
  \<open>auto ptr = callback->lock()\<close> on the stack of a running \<open>publish\<close>. Their sum is
  \<open>use_count()\<close>. A \<open>weak_ptr\<close> is either empty (\<open>None\<close>) or names a control block.

  The \<open>std::function\<close> behind a handle is arbitrary listener code. It is modelled by
  what it may do to the state the publisher can see: drop or copy a strong reference,
  allocate a new handle, call \<open>subscribe\<close>, throw. Its body may depend on the published
  arguments. Calling \<open>publish\<close> again from inside a callback is left out (the
  specification declares it unspecified), and so are the side effects of the
  destructor of a \<open>std::function\<close> object and the failure of an allocation in
  \<open>push_back\<close> or in the copy of the list.
\<close>

type_synonym handle = nat
type_synonym weak_ptr = "handle option"
type_synonym exn = nat

datatype 'a action =
    Release handle
  | Acquire handle
  | Create "'a \<Rightarrow> 'a action list"
  | Subscribe weak_ptr
  | Throw exn

record 'a control_block =
  owners :: nat
  pins :: nat
  callback :: "'a \<Rightarrow> 'a action list"

text \<open>
  The trace is a ghost field: \<open>publish\<close> appends one event for every snapshot entry it
  processes, \<open>Invoked h x\<close> when it calls the callback of handle \<open>h\<close> with the
  arguments \<open>x\<close>, \<open>Skipped c\<close> when \<open>lock()\<close> on the entry \<open>c\<close> fails.
\<close>

datatype 'a event = Invoked handle 'a | Skipped weak_ptr

record 'a world =
  heap :: "'a control_block list"
  callbacks :: "weak_ptr list"
  trace :: "'a event list"

definition use_count :: "'a world \<Rightarrow> handle \<Rightarrow> nat" where
  "use_count w h =
     (if h < length (heap w) then owners (heap w ! h) + pins (heap w ! h) else 0)"

text \<open>\<open>std::weak_ptr::expired()\<close>: true for an empty pointer and when \<open>use_count() == 0\<close>.\<close>

definition expired :: "'a world \<Rightarrow> weak_ptr \<Rightarrow> bool" where
  "expired w c = (case c of None \<Rightarrow> True | Some h \<Rightarrow> use_count w h = 0)"

definition live :: "'a world \<Rightarrow> handle \<Rightarrow> bool" where
  "live w h = (\<not> expired w (Some h))"

text \<open>
  \<open>std::weak_ptr::lock()\<close>: an empty \<open>shared_ptr\<close> when expired, otherwise a new
  strong reference, which is one more pin.
\<close>

definition lock :: "weak_ptr \<Rightarrow> 'a world \<Rightarrow> (handle \<times> 'a world) option" where
  "lock c w =
     (case c of
        None \<Rightarrow> None
      | Some h \<Rightarrow>
          if expired w c then None
          else Some (h, w\<lparr>heap := (heap w)[h := (heap w ! h)\<lparr>pins := pins (heap w ! h) + 1\<rparr>]\<rparr>))"

text \<open>The destructor of the temporary \<open>ptr\<close> at the end of the loop body.\<close>

definition unlock :: "handle \<Rightarrow> 'a world \<Rightarrow> 'a world" where
  "unlock h w =
     (if h < length (heap w)
      then w\<lparr>heap := (heap w)[h := (heap w ! h)\<lparr>pins := pins (heap w ! h) - 1\<rparr>]\<rparr>
      else w)"

text \<open>\<open>Publisher::subscribe\<close>.\<close>

definition subscribe :: "weak_ptr \<Rightarrow> 'a world \<Rightarrow> 'a world" where
  "subscribe c w =
     (if \<not> expired w c then w\<lparr>callbacks := callbacks w @ [c]\<rparr> else w)"

text \<open>
  What listener code does. \<open>Release h\<close> destroys one listener-held \<open>shared_ptr\<close> to
  \<open>h\<close> (nothing happens when the listener holds none); \<open>Acquire h\<close> copies one (a copy
  of an empty pointer is empty); \<open>Create f\<close> is \<open>make_callback\<close>: a new control block
  with one owner; \<open>Subscribe c\<close> calls \<open>Publisher::subscribe\<close>; \<open>Throw e\<close> raises.
\<close>

fun perform :: "'a action \<Rightarrow> 'a world \<Rightarrow> (exn \<times> 'a world) + 'a world" where
  "perform (Release h) w =
     Inr (if h < length (heap w) \<and> 0 < owners (heap w ! h)
          then w\<lparr>heap := (heap w)[h := (heap w ! h)\<lparr>owners := owners (heap w ! h) - 1\<rparr>]\<rparr>
          else w)"
| "perform (Acquire h) w =
     Inr (if 0 < use_count w h
          then w\<lparr>heap := (heap w)[h := (heap w ! h)\<lparr>owners := owners (heap w ! h) + 1\<rparr>]\<rparr>
          else w)"
| "perform (Create f) w =
     Inr (w\<lparr>heap := heap w @ [\<lparr>owners = 1, pins = 0, callback = f\<rparr>]\<rparr>)"
| "perform (Subscribe c) w = Inr (subscribe c w)"
| "perform (Throw e) w = Inl (e, w)"

fun run :: "'a action list \<Rightarrow> 'a world \<Rightarrow> (exn \<times> 'a world) + 'a world" where
  "run [] w = Inr w"
| "run (a # as) w =
     (case perform a w of
        Inl ew \<Rightarrow> Inl ew
      | Inr w' \<Rightarrow> run as w')"

text \<open>
  The first loop of \<open>publish\<close>: the iterator walks \<open>_callbacks\<close> once, erasing the
  entry under it when that entry is expired and stepping over it otherwise. No listener
  code runs in it, so the state it tests against does not change.
\<close>

fun purge :: "'a world \<Rightarrow> weak_ptr list \<Rightarrow> weak_ptr list" where
  "purge w [] = []"
| "purge w (c # cs) = (if expired w c then purge w cs else c # purge w cs)"

text \<open>
  The second loop, over the copy \<open>callbacks\<close>. An exception leaves the loop and the
  function; the temporary \<open>ptr\<close> is destroyed on the way out.
\<close>

fun dispatch :: "'a \<Rightarrow> weak_ptr list \<Rightarrow> 'a world \<Rightarrow> (exn \<times> 'a world) + 'a world" where
  "dispatch x [] w = Inr w"
| "dispatch x (c # cs) w =
     (case lock c w of
        None \<Rightarrow> dispatch x cs (w\<lparr>trace := trace w @ [Skipped c]\<rparr>)
      | Some (h, wp) \<Rightarrow>
          (case run (callback (heap wp ! h) x) (wp\<lparr>trace := trace wp @ [Invoked h x]\<rparr>) of
             Inl (e, w') \<Rightarrow> Inl (e, unlock h w')
           | Inr w' \<Rightarrow> dispatch x cs (unlock h w')))"

definition publish :: "'a \<Rightarrow> 'a world \<Rightarrow> (exn \<times> 'a world) + 'a world" where
  "publish x w =
     (let w1 = w\<lparr>callbacks := purge w (callbacks w)\<rparr>;
          cbs = callbacks w1
      in dispatch x cbs w1)"


section \<open>Ghost functions and auxiliary predicates\<close>

text \<open>
  \<open>entry_of\<close> is the snapshot entry an event was logged for, \<open>state_of\<close> the state
  a call leaves behind, whether it returned or threw, and \<open>new_events w w'\<close> what was
  logged between \<open>w\<close> and \<open>w'\<close>.
\<close>

fun entry_of :: "'a event \<Rightarrow> weak_ptr" where
  "entry_of (Invoked h x) = Some h"
| "entry_of (Skipped c) = c"

fun state_of :: "(exn \<times> 'a world) + 'a world \<Rightarrow> 'a world" where
  "state_of (Inl (e, w)) = w"
| "state_of (Inr w) = w"

definition new_events :: "'a world \<Rightarrow> 'a world \<Rightarrow> 'a event list" where
  "new_events w w' = drop (length (trace w)) (trace w')"

text \<open>
  \<open>grows w w'\<close> collects what every step of listener and publisher code after the
  purge preserves: control blocks are only added, a callback object is never replaced, a
  handle that exists and is expired stays expired, and the sequence and the trace are only
  extended, the sequence only by handles that were not already expired.
\<close>

definition grows :: "'a world \<Rightarrow> 'a world \<Rightarrow> bool" where
  "grows w w' \<longleftrightarrow>
     length (heap w) \<le> length (heap w') \<and>
     (\<forall>h < length (heap w). callback (heap w' ! h) = callback (heap w ! h)) \<and>
     (\<forall>h < length (heap w). live w' h \<longrightarrow> live w h) \<and>
     prefix (callbacks w) (callbacks w') \<and>
     (\<forall>c \<in> set (callbacks w'). c \<in> set (callbacks w) \<or>
        (\<exists>h. c = Some h \<and> (h < length (heap w) \<longrightarrow> live w h))) \<and>
     prefix (trace w) (trace w')"

text \<open>
  \<open>ev_ok\<close> is what holds of one logged event, and \<open>pass_ok x cs w r evs\<close> of all of
  them: the events \<open>evs\<close> logged by a dispatch pass over \<open>cs\<close> from
  \<open>w\<close> with outcome \<open>r\<close> follow \<open>cs\<close> entry by entry; a callback is invoked with
  \<open>x\<close> and only for a handle that was live, an entry is skipped only for a handle that is
  expired from then on; a pass that returns has an event for every entry, and a pass that
  throws ends with the call of a callback whose body throws that exception.
\<close>

definition ev_ok :: "'a \<Rightarrow> 'a world \<Rightarrow> 'a world \<Rightarrow> 'a event \<Rightarrow> bool" where
  "ev_ok x w w' ev =
     (case ev of
        Invoked h y \<Rightarrow> y = x \<and> (h < length (heap w) \<longrightarrow> live w h)
      | Skipped c \<Rightarrow> (\<forall>h. c = Some h \<longrightarrow> h < length (heap w) \<longrightarrow> \<not> live w' h))"

definition pass_ok ::
  "'a \<Rightarrow> weak_ptr list \<Rightarrow> 'a world \<Rightarrow> (exn \<times> 'a world) + 'a world \<Rightarrow> 'a event list \<Rightarrow> bool" where
  "pass_ok x cs w r evs \<longleftrightarrow>
     trace (state_of r) = trace w @ evs \<and>
     map entry_of evs = take (length evs) cs \<and>
     length evs \<le> length cs \<and>
     (\<forall>ev \<in> set evs. ev_ok x w (state_of r) ev) \<and>
     (case r of
        Inr w' \<Rightarrow> length evs = length cs
      | Inl (e, w') \<Rightarrow>
          evs \<noteq> [] \<and>
          (\<exists>h. last evs = Invoked h x \<and> h < length (heap w') \<and>
               Throw e \<in> set (callback (heap w' ! h) x)))"

text \<open>
  The life of a publisher after some point: listener code that runs outside a
  publication, and publications made by the owner, each continuing from the state the
  one before left behind, whether it returned or threw.
\<close>

datatype 'a step = Listener "'a action" | Publish 'a


section \<open>Example states\<close>

text \<open>
  A publisher of \<open>Publisher<Friend, int, const std::string&>\<close> as in \<open>test/Example.h\<close>.
  \<open>block n f\<close> is a control block with \<open>n\<close> listener-held references whose callback
  is \<open>f\<close>; \<open>idle\<close> is a callback that only returns.
\<close>

definition block :: "nat \<Rightarrow> ('a \<Rightarrow> 'a action list) \<Rightarrow> 'a control_block" where
  "block n f = \<lparr>owners = n, pins = 0, callback = f\<rparr>"

definition idle :: "int \<times> string \<Rightarrow> (int \<times> string) action list" where
  "idle x = []"

text \<open>\<open>maker\<close> is a callback that allocates a new handle with an idle callback.\<close>

definition maker :: "int \<times> string \<Rightarrow> (int \<times> string) action list" where
  "maker x = [Create idle]"

text \<open>One control block whose only owner is gone, nothing subscribed.\<close>

definition ex_gone :: "(int \<times> string) world" where
  "ex_gone = \<lparr>heap = [block 0 idle], callbacks = [], trace = []\<rparr>"

text \<open>Three listeners A, B, C with idle callbacks, subscribed in that order.\<close>

definition ex_three :: "(int \<times> string) world" where
  "ex_three =
     \<lparr>heap = [block 1 idle, block 1 idle, block 1 idle],
      callbacks = [Some 0, Some 1, Some 2], trace = []\<rparr>"

text \<open>
  A, B, C subscribed in this order; B's callback destroys B's own and only strong
  reference, as \<open>delete this\<close> does in \<open>Client::handler\<close> of \<open>test/Example.h\<close>.
  \<open>ex_self_mid\<close> is the state when B's callback has returned and the temporary of the
  dispatch loop is gone, \<open>ex_self_done\<close> the state when \<open>publish (5, "x")\<close> returns.
\<close>

definition self_release :: "handle \<Rightarrow> int \<times> string \<Rightarrow> (int \<times> string) action list" where
  "self_release h x = [Release h]"

definition ex_self :: "(int \<times> string) world" where
  "ex_self =
     \<lparr>heap = [block 1 idle, block 1 (self_release 1), block 1 idle],
      callbacks = [Some 0, Some 1, Some 2], trace = []\<rparr>"


definition ex_self_done :: "(int \<times> string) world" where
  "ex_self_done =
     \<lparr>heap = [block 1 idle, block 0 (self_release 1), block 1 idle],
      callbacks = [Some 0, Some 1, Some 2],
      trace = [Invoked 0 (5, ''x''), Invoked 1 (5, ''x''), Invoked 2 (5, ''x'')]\<rparr>"

text \<open>
  A and B subscribed in this order; A's callback throws. \<open>ex_throw_locked\<close> is the state
  when the dispatch loop holds its temporary for A, \<open>ex_throw_raised\<close> the state when A's
  callback throws, \<open>ex_throw_done\<close> the state \<open>publish (5, "x")\<close> leaves behind.
\<close>

definition thrower :: "exn \<Rightarrow> int \<times> string \<Rightarrow> (int \<times> string) action list" where
  "thrower e x = [Throw e]"

definition ex_throw :: "(int \<times> string) world" where
  "ex_throw =
     \<lparr>heap = [block 1 (thrower 7), block 1 idle],
      callbacks = [Some 0, Some 1], trace = []\<rparr>"

definition ex_throw_locked :: "(int \<times> string) world" where
  "ex_throw_locked =
     \<lparr>heap = [\<lparr>owners = 1, pins = 1, callback = thrower 7\<rparr>, block 1 idle],
      callbacks = [Some 0, Some 1], trace = []\<rparr>"

definition ex_throw_raised :: "(int \<times> string) world" where
  "ex_throw_raised =
     \<lparr>heap = [\<lparr>owners = 1, pins = 1, callback = thrower 7\<rparr>, block 1 idle],
      callbacks = [Some 0, Some 1], trace = [Invoked 0 (5, ''x'')]\<rparr>"

definition ex_throw_done :: "(int \<times> string) world" where
  "ex_throw_done =
     \<lparr>heap = [block 1 (thrower 7), block 1 idle],
      callbacks = [Some 0, Some 1], trace = [Invoked 0 (5, ''x'')]\<rparr>"

text \<open>\<open>ex_self\<close> while the dispatch loop holds its temporary for B.\<close>

definition ex_self_locked :: "(int \<times> string) world" where
  "ex_self_locked =
     \<lparr>heap = [block 1 idle, \<lparr>owners = 1, pins = 1, callback = self_release 1\<rparr>, block 1 idle],
      callbacks = [Some 0, Some 1, Some 2], trace = []\<rparr>"

text \<open>
  Three listeners, of which B's callback allocates a new handle with an idle callback:
  before B subscribes (\<open>ex_twice_before\<close>), with B subscribed twice and nobody else
  (\<open>ex_twice\<close>), when the dispatch loop holds its temporary for B's first entry
  (\<open>ex_twice_locked\<close>), when it has finished with that entry (\<open>ex_twice_mid\<close>), when it
  holds its temporary for B's second entry (\<open>ex_twice_relocked\<close>), and when
  \<open>publish (5, "x")\<close> returns (\<open>ex_twice_done\<close>).
\<close>

definition ex_twice_before :: "(int \<times> string) world" where
  "ex_twice_before =
     \<lparr>heap = [block 1 idle, block 1 maker, block 1 idle], callbacks = [], trace = []\<rparr>"

definition ex_twice :: "(int \<times> string) world" where
  "ex_twice =
     \<lparr>heap = [block 1 idle, block 1 maker, block 1 idle],
      callbacks = [Some 1, Some 1], trace = []\<rparr>"

definition ex_twice_locked :: "(int \<times> string) world" where
  "ex_twice_locked =
     \<lparr>heap = [block 1 idle, \<lparr>owners = 1, pins = 1, callback = maker\<rparr>, block 1 idle],
      callbacks = [Some 1, Some 1], trace = []\<rparr>"

definition ex_twice_mid :: "(int \<times> string) world" where
  "ex_twice_mid =
     \<lparr>heap = [block 1 idle, block 1 maker, block 1 idle, block 1 idle],
      callbacks = [Some 1, Some 1], trace = [Invoked 1 (5, ''x'')]\<rparr>"

definition ex_twice_relocked :: "(int \<times> string) world" where
  "ex_twice_relocked =
     \<lparr>heap = [block 1 idle, \<lparr>owners = 1, pins = 1, callback = maker\<rparr>, block 1 idle,
              block 1 idle],
      callbacks = [Some 1, Some 1], trace = [Invoked 1 (5, ''x'')]\<rparr>"

definition ex_twice_done :: "(int \<times> string) world" where
  "ex_twice_done =
     \<lparr>heap = [block 1 idle, block 1 maker, block 1 idle, block 1 idle, block 1 idle],
      callbacks = [Some 1, Some 1],
      trace = [Invoked 1 (5, ''x''), Invoked 1 (5, ''x'')]\<rparr>"

text \<open>
  One listener A whose callback, on the publication \<open>(5, "x")\<close> only, makes a new handle
  N and subscribes it. N's callback destroys N's only strong reference on the
  publication \<open>(6, "y")\<close> and copies it on any other. \<open>ex_sub_locked\<close> is the state when
  the dispatch loop holds its temporary for A, \<open>ex_sub_made\<close> the state when A's callback
  calls \<open>subscribe\<close>, and \<open>ex_sub_done\<close> the state when that publication returns.
  \<open>ex_sub_next\<close> is the state when a next publication \<open>(7, "z")\<close> returns. For a next
  publication \<open>(6, "y")\<close> instead, \<open>ex_sub_turn\<close> is the state when the dispatch loop
  has finished with A, \<open>ex_sub_pinned\<close> the state when it holds its temporary for N, and
  \<open>ex_sub_gone\<close> the state when the publication returns.
\<close>

definition newcomer :: "int \<times> string \<Rightarrow> (int \<times> string) action list" where
  "newcomer x = (if fst x = 6 then [Release 1] else [Acquire 1])"

definition subscriber :: "int \<times> string \<Rightarrow> (int \<times> string) action list" where
  "subscriber x = (if fst x = 5 then [Create newcomer, Subscribe (Some 1)] else [])"

definition ex_sub :: "(int \<times> string) world" where
  "ex_sub = \<lparr>heap = [block 1 subscriber], callbacks = [Some 0], trace = []\<rparr>"

definition ex_sub_locked :: "(int \<times> string) world" where
  "ex_sub_locked =
     \<lparr>heap = [\<lparr>owners = 1, pins = 1, callback = subscriber\<rparr>],
      callbacks = [Some 0], trace = []\<rparr>"

definition ex_sub_made :: "(int \<times> string) world" where
  "ex_sub_made =
     \<lparr>heap = [\<lparr>owners = 1, pins = 1, callback = subscriber\<rparr>, block 1 newcomer],
      callbacks = [Some 0], trace = [Invoked 0 (5, ''x'')]\<rparr>"

definition ex_sub_done :: "(int \<times> string) world" where
  "ex_sub_done =
     \<lparr>heap = [block 1 subscriber, block 1 newcomer],
      callbacks = [Some 0, Some 1], trace = [Invoked 0 (5, ''x'')]\<rparr>"

definition ex_sub_next :: "(int \<times> string) world" where
  "ex_sub_next =
     \<lparr>heap = [block 1 subscriber, block 2 newcomer],
      callbacks = [Some 0, Some 1],
      trace = [Invoked 0 (5, ''x''), Invoked 0 (7, ''z''), Invoked 1 (7, ''z'')]\<rparr>"

definition ex_sub_turn :: "(int \<times> string) world" where
  "ex_sub_turn =
     \<lparr>heap = [block 1 subscriber, block 1 newcomer],
      callbacks = [Some 0, Some 1],
      trace = [Invoked 0 (5, ''x''), Invoked 0 (6, ''y'')]\<rparr>"

definition ex_sub_pinned :: "(int \<times> string) world" where
  "ex_sub_pinned =
     \<lparr>heap = [block 1 subscriber, \<lparr>owners = 1, pins = 1, callback = newcomer\<rparr>],
      callbacks = [Some 0, Some 1],
      trace = [Invoked 0 (5, ''x''), Invoked 0 (6, ''y'')]\<rparr>"

definition ex_sub_gone :: "(int \<times> string) world" where
  "ex_sub_gone =
     \<lparr>heap = [block 1 subscriber, block 0 newcomer],
      callbacks = [Some 0, Some 1],
      trace = [Invoked 0 (5, ''x''), Invoked 0 (6, ''y''), Invoked 1 (6, ''y'')]\<rparr>"

text \<open>\<open>ex_self_locked\<close> after B's callback has run, before the temporary is destroyed.\<close>

definition ex_self_released :: "(int \<times> string) world" where
  "ex_self_released =
     \<lparr>heap = [block 1 idle, \<lparr>owners = 0, pins = 1, callback = self_release 1\<rparr>, block 1 idle],
      callbacks = [Some 0, Some 1, Some 2], trace = [Invoked 1 (5, ''x'')]\<rparr>"













section \<open>Auxiliary lemmas\<close>

lemma grows_refl: "grows w w"
  by (simp add: grows_def)

lemma grows_trans:
  assumes "grows w w'" and "grows w' w''"
  shows "grows w w''"
  unfolding grows_def
proof (intro conjI allI impI ballI)
  show "length (heap w) \<le> length (heap w'')"
    using assms by (simp add: grows_def)
next
  fix h assume "h < length (heap w)"
  then show "callback (heap w'' ! h) = callback (heap w ! h)"
    using assms by (simp add: grows_def)
next
  fix h assume "h < length (heap w)" "live w'' h"
  then show "live w h"
    using assms unfolding grows_def by (meson less_le_trans)
next
  show "prefix (callbacks w) (callbacks w'')"
    using assms unfolding grows_def by (meson prefix_order.order_trans)
next
  fix c assume c: "c \<in> set (callbacks w'')"
  from c assms(2) consider "c \<in> set (callbacks w')"
    | h where "c = Some h" "h < length (heap w') \<longrightarrow> live w' h"
    unfolding grows_def by blast
  then show "c \<in> set (callbacks w) \<or> (\<exists>h. c = Some h \<and> (h < length (heap w) \<longrightarrow> live w h))"
  proof cases
    case 1
    then show ?thesis using assms(1) unfolding grows_def by blast
  next
    case 2
    have "h < length (heap w) \<longrightarrow> live w h"
    proof
      assume hw: "h < length (heap w)"
      with assms(1) have "h < length (heap w')" by (simp add: grows_def)
      with 2 have "live w' h" by simp
      with hw assms(1) show "live w h" by (simp add: grows_def)
    qed
    with 2 show ?thesis by blast
  qed
next
  show "prefix (trace w) (trace w'')"
    using assms unfolding grows_def by (meson prefix_order.order_trans)
qed

lemma live_in_range: "live w h \<Longrightarrow> h < length (heap w)"
  by (simp add: live_def expired_def use_count_def split: if_splits)

lemma live_iff: "live w h = (h < length (heap w) \<and> 0 < owners (heap w ! h) + pins (heap w ! h))"
  by (simp add: live_def expired_def use_count_def)

lemma subscribe_grows: "grows w (subscribe c w)"
  by (cases c) (auto simp: grows_def subscribe_def live_def expired_def use_count_def)

lemma perform_grows: "grows w (state_of (perform a w))"
proof (cases a)
  case (Subscribe c)
  then show ?thesis by (simp add: subscribe_grows)
next
  case (Release h)
  then show ?thesis by (auto simp: grows_def live_iff nth_list_update)
next
  case (Acquire h)
  then show ?thesis by (auto simp: grows_def live_iff nth_list_update use_count_def)
next
  case (Create f)
  then show ?thesis by (auto simp: grows_def live_iff nth_append)
next
  case (Throw e)
  then show ?thesis by (simp add: grows_refl)
qed

lemma run_grows: "grows w (state_of (run as w))"
proof (induction as arbitrary: w)
  case Nil
  show ?case by (simp add: grows_refl)
next
  case (Cons a as)
  show ?case
  proof (cases "perform a w")
    case (Inl ew)
    then show ?thesis using perform_grows [of w a] by (cases ew) simp
  next
    case (Inr w')
    then have "grows w w'" using perform_grows [of w a] by simp
    then show ?thesis using Inr Cons.IH [of w'] by (auto intro: grows_trans)
  qed
qed


lemma nth_upd: "j < length xs \<Longrightarrow> (xs[i := v]) ! j = (if i = j then v else xs ! j)"
  by (cases "i = j") simp_all

lemma perform_trace: "trace (state_of (perform a w)) = trace w"
  by (cases a) (simp_all add: subscribe_def)

lemma run_trace: "trace (state_of (run as w)) = trace w"
proof (induction as arbitrary: w)
  case Nil
  show ?case by simp
next
  case (Cons a as)
  show ?case
  proof (cases "perform a w")
    case (Inl ew)
    then show ?thesis using perform_trace [of a w] by (cases ew) simp
  next
    case (Inr w')
    then show ?thesis using perform_trace [of a w] Cons.IH [of w'] by simp
  qed
qed

lemma perform_pins:
  "h < length (heap w) \<Longrightarrow> pins (heap (state_of (perform a w)) ! h) = pins (heap w ! h)"
  by (cases a) (auto simp: subscribe_def nth_upd nth_append)

lemma run_pins:
  "h < length (heap w) \<Longrightarrow> pins (heap (state_of (run as w)) ! h) = pins (heap w ! h)"
proof (induction as arbitrary: w)
  case Nil
  show ?case by simp
next
  case (Cons a as)
  show ?case
  proof (cases "perform a w")
    case (Inl ew)
    then show ?thesis using perform_pins [OF Cons.prems, of a] by (cases ew) simp
  next
    case (Inr w')
    have "h < length (heap w')"
      using perform_grows [of w a] Inr Cons.prems by (simp add: grows_def)
    then show ?thesis
      using Inr perform_pins [OF Cons.prems, of a] Cons.IH [of w'] by simp
  qed
qed

lemma lock_None_iff: "lock c w = None \<longleftrightarrow> expired w c"
  by (cases c) (simp_all add: lock_def expired_def)

lemma lock_Some:
  assumes "lock c w = Some (h, wp)"
  shows "c = Some h" and "live w h" and "live wp h"
    and "grows w wp" and "trace wp = trace w" and "callbacks wp = callbacks w"
    and "length (heap wp) = length (heap w)"
    and "callback (heap wp ! h) = callback (heap w ! h)"
    and "pins (heap wp ! h) = Suc (pins (heap w ! h))"
proof -
  from assms obtain
    c: "c = Some h" and ne: "\<not> expired w c"
    and wp: "wp = w\<lparr>heap := (heap w)[h := (heap w ! h)\<lparr>pins := pins (heap w ! h) + 1\<rparr>]\<rparr>"
    by (cases c) (auto simp: lock_def split: if_splits)
  show "c = Some h" by (rule c)
  show l: "live w h" using c ne by (simp add: live_def)
  then have r: "h < length (heap w)" by (rule live_in_range)
  show "live wp h" using r by (simp add: wp live_iff)
  show "grows w wp" using l by (auto simp: wp grows_def live_iff nth_upd)
  show "trace wp = trace w" by (simp add: wp)
  show "callbacks wp = callbacks w" by (simp add: wp)
  show "length (heap wp) = length (heap w)" by (simp add: wp)
  show "callback (heap wp ! h) = callback (heap w ! h)" using r by (simp add: wp)
  show "pins (heap wp ! h) = Suc (pins (heap w ! h))" using r by (simp add: wp)
qed

lemma unlock_grows: "grows w (unlock h w)"
  by (auto simp: unlock_def grows_def live_iff nth_upd)

lemma unlock_trace: "trace (unlock h w) = trace w"
  by (simp add: unlock_def)

lemma unlock_callbacks: "callbacks (unlock h w) = callbacks w"
  by (simp add: unlock_def)

lemma log_grows: "grows w (w\<lparr>trace := trace w @ evs\<rparr>)"
  by (simp add: grows_def live_iff)

lemma dispatch_grows: "grows w (state_of (dispatch x cs w))"
proof (induction cs arbitrary: w)
  case Nil
  show ?case by (simp add: grows_refl)
next
  case (Cons c cs)
  show ?case
  proof (cases "lock c w")
    case None
    then show ?thesis
      using Cons.IH [of "w\<lparr>trace := trace w @ [Skipped c]\<rparr>"] log_grows [of w "[Skipped c]"]
      by (auto intro: grows_trans)
  next
    case (Some p)
    obtain h wp where p: "p = (h, wp)" by (cases p)
    let ?wi = "wp\<lparr>trace := trace wp @ [Invoked h x]\<rparr>"
    let ?r = "run (callback (heap wp ! h) x) ?wi"
    have g1: "grows w (state_of ?r)"
      using lock_Some(4) [OF Some [unfolded p]] log_grows [of wp "[Invoked h x]"]
        run_grows [of ?wi "callback (heap wp ! h) x"]
      by (blast intro: grows_trans)
    have g2: "grows w (unlock h (state_of ?r))"
      using g1 unlock_grows by (blast intro: grows_trans)
    show ?thesis
    proof (cases ?r)
      case (Inl ew)
      obtain e w' where ew: "ew = (e, w')" by (cases ew)
      show ?thesis using g2 Some p Inl ew by simp
    next
      case (Inr w')
      show ?thesis using g2 Some p Inr Cons.IH [of "unlock h w'"]
        by (auto intro: grows_trans)
    qed
  qed
qed


lemma ev_ok_mono:
  assumes "grows w w1" and "ev_ok x w1 f ev"
  shows "ev_ok x w f ev"
proof (cases ev)
  case (Invoked h y)
  have "h < length (heap w) \<longrightarrow> live w h"
  proof
    assume hw: "h < length (heap w)"
    with assms(1) have "h < length (heap w1)" by (simp add: grows_def)
    with assms(2) Invoked have "live w1 h" by (simp add: ev_ok_def)
    with hw assms(1) show "live w h" by (simp add: grows_def)
  qed
  with assms(2) Invoked show ?thesis by (simp add: ev_ok_def)
next
  case (Skipped c)
  have "\<forall>h. c = Some h \<longrightarrow> h < length (heap w) \<longrightarrow> \<not> live f h"
  proof (intro allI impI)
    fix h assume c: "c = Some h" and hw: "h < length (heap w)"
    with assms(1) have "h < length (heap w1)" by (simp add: grows_def)
    with assms(2) Skipped c show "\<not> live f h" by (simp add: ev_ok_def)
  qed
  with Skipped show ?thesis by (simp add: ev_ok_def)
qed

lemma pass_ok_Cons:
  assumes g: "grows w w1"
    and t: "trace w1 = trace w @ [ev]"
    and e: "entry_of ev = c"
    and ok: "ev_ok x w (state_of r) ev"
    and p: "pass_ok x cs w1 r evs"
  shows "pass_ok x (c # cs) w r (ev # evs)"
  unfolding pass_ok_def
proof (intro conjI ballI)
  show "trace (state_of r) = trace w @ ev # evs"
    using p t by (simp add: pass_ok_def)
  show "map entry_of (ev # evs) = take (length (ev # evs)) (c # cs)"
    using p e by (simp add: pass_ok_def)
  show "length (ev # evs) \<le> length (c # cs)"
    using p by (simp add: pass_ok_def)
next
  fix ev' assume "ev' \<in> set (ev # evs)"
  then consider "ev' = ev" | "ev' \<in> set evs" by auto
  then show "ev_ok x w (state_of r) ev'"
  proof cases
    case 1
    then show ?thesis using ok by simp
  next
    case 2
    with p have "ev_ok x w1 (state_of r) ev'" by (simp add: pass_ok_def)
    with g show ?thesis by (rule ev_ok_mono)
  qed
next
  show "case r of
          Inl (e, w') \<Rightarrow> ev # evs \<noteq> [] \<and>
            (\<exists>h. last (ev # evs) = Invoked h x \<and> h < length (heap w') \<and>
                 Throw e \<in> set (callback (heap w' ! h) x))
        | Inr w' \<Rightarrow> length (ev # evs) = length (c # cs)"
    using p by (auto simp: pass_ok_def split: sum.splits)
qed

lemma run_raise: "run as w = Inl (e, w') \<Longrightarrow> Throw e \<in> set as"
proof (induction as arbitrary: w)
  case Nil
  then show ?case by simp
next
  case (Cons a as)
  show ?case
  proof (cases "perform a w")
    case (Inl ew)
    with Cons.prems have "perform a w = Inl (e, w')" by simp
    then have "a = Throw e" by (cases a) simp_all
    then show ?thesis by simp
  next
    case (Inr w1)
    with Cons.prems have "run as w1 = Inl (e, w')" by simp
    then show ?thesis using Cons.IH by simp
  qed
qed

lemma dispatch_pass: "\<exists>evs. pass_ok x cs w (dispatch x cs w) evs"
proof (induction cs arbitrary: w)
  case Nil
  show ?case by (simp add: pass_ok_def)
next
  case (Cons c cs)
  show ?case
  proof (cases "lock c w")
    case None
    let ?w1 = "w\<lparr>trace := trace w @ [Skipped c]\<rparr>"
    let ?r = "dispatch x cs ?w1"
    from Cons.IH [of ?w1] obtain evs where p: "pass_ok x cs ?w1 ?r evs" ..
    have g: "grows w ?w1" by (rule log_grows)
    have gf: "grows w (state_of ?r)"
      using g dispatch_grows [of ?w1 x cs] by (rule grows_trans)
    have "expired w c" using None by (simp add: lock_None_iff)
    then have ok: "ev_ok x w (state_of ?r) (Skipped c)"
      using gf by (auto simp: ev_ok_def grows_def live_def)
    have "pass_ok x (c # cs) w ?r (Skipped c # evs)"
      using g _ _ ok p by (rule pass_ok_Cons) simp_all
    then show ?thesis using None by auto
  next
    case (Some q)
    obtain h wp where q: "q = (h, wp)" by (cases q)
    note lk = lock_Some [OF Some [unfolded q]]
    let ?wi = "wp\<lparr>trace := trace wp @ [Invoked h x]\<rparr>"
    let ?body = "callback (heap wp ! h) x"
    have gi: "grows w ?wi"
      using lk(4) log_grows [of wp "[Invoked h x]"] by (rule grows_trans)
    have ti: "trace ?wi = trace w @ [Invoked h x]" by (simp add: lk(5))
    have gr: "grows ?wi (unlock h (state_of (run ?body ?wi)))"
      using run_grows [of ?wi ?body] unlock_grows by (rule grows_trans)
    have tr: "trace (unlock h (state_of (run ?body ?wi))) = trace ?wi"
      by (simp only: unlock_trace run_trace)
    have okI: "ev_ok x w f (Invoked h x)" for f
      using lk(2) by (simp add: ev_ok_def)
    show ?thesis
    proof (cases "run ?body ?wi")
      case (Inl ew)
      obtain e w' where ew: "ew = (e, w')" by (cases ew)
      have res: "dispatch x (c # cs) w = Inl (e, unlock h w')"
        using Some q Inl ew by simp
      have hr: "h < length (heap ?wi)"
        using lk(3) live_in_range [of wp h] by simp
      have "h < length (heap (unlock h w'))"
        using gr hr Inl ew by (simp add: grows_def)
      moreover have "callback (heap (unlock h w') ! h) = callback (heap wp ! h)"
        using gr hr Inl ew by (simp add: grows_def)
      moreover have "Throw e \<in> set ?body"
        using Inl ew run_raise [of ?body ?wi e w'] by simp
      moreover have "trace (unlock h w') = trace w @ [Invoked h x]"
        using tr ti Inl ew by simp
      ultimately have "pass_ok x (c # cs) w (Inl (e, unlock h w')) [Invoked h x]"
        using lk(1) okI by (simp add: pass_ok_def)
      then show ?thesis using res by auto
    next
      case (Inr w')
      let ?w2 = "unlock h w'"
      let ?r = "dispatch x cs ?w2"
      have res: "dispatch x (c # cs) w = ?r"
        using Some q Inr by simp
      from Cons.IH [of ?w2] obtain evs where p: "pass_ok x cs ?w2 ?r evs" ..
      have g2: "grows w ?w2"
        using gi gr Inr by (auto intro: grows_trans)
      have t2: "trace ?w2 = trace w @ [Invoked h x]"
        using tr ti Inr by simp
      have "pass_ok x (c # cs) w ?r (Invoked h x # evs)"
        using g2 t2 _ okI p by (rule pass_ok_Cons) (simp add: lk(1))
      then show ?thesis using res by auto
    qed
  qed
qed

lemma publish_unfold:
  "publish x w =
     dispatch x (purge w (callbacks w)) (w\<lparr>callbacks := purge w (callbacks w)\<rparr>)"
  by (simp add: publish_def Let_def)


lemma publish_grows:
  "grows (w\<lparr>callbacks := purge w (callbacks w)\<rparr>) (state_of (publish x w))"
  by (simp add: publish_unfold dispatch_grows)

lemma publish_pass:
  "pass_ok x (purge w (callbacks w)) (w\<lparr>callbacks := purge w (callbacks w)\<rparr>)
     (publish x w) (new_events w (state_of (publish x w)))"
proof -
  let ?w1 = "w\<lparr>callbacks := purge w (callbacks w)\<rparr>"
  from dispatch_pass [of x "purge w (callbacks w)" ?w1]
  obtain evs where p: "pass_ok x (purge w (callbacks w)) ?w1 (dispatch x (purge w (callbacks w)) ?w1) evs" ..
  then have "trace (state_of (publish x w)) = trace w @ evs"
    by (simp add: pass_ok_def publish_unfold)
  then have "new_events w (state_of (publish x w)) = evs"
    by (simp add: new_events_def)
  with p show ?thesis by (simp add: publish_unfold)
qed

lemma purge_filter: "purge w cs = filter (\<lambda>c. \<not> expired w c) cs"
  by (induction cs) simp_all

lemma dead_not_invoked:
  assumes "h < length (heap w)" and "\<not> live w h"
  shows "Invoked h y \<notin> set (new_events w (state_of (publish x w)))"
proof
  assume "Invoked h y \<in> set (new_events w (state_of (publish x w)))"
  with publish_pass [of x w]
  have "ev_ok x (w\<lparr>callbacks := purge w (callbacks w)\<rparr>) (state_of (publish x w)) (Invoked h y)"
    by (simp add: pass_ok_def)
  with assms show False by (simp add: ev_ok_def live_iff)
qed

lemma dead_not_listed:
  assumes "h < length (heap w)" and "\<not> live w h"
  shows "Some h \<notin> set (callbacks (state_of (publish x w)))"
proof
  let ?w1 = "w\<lparr>callbacks := purge w (callbacks w)\<rparr>"
  assume "Some h \<in> set (callbacks (state_of (publish x w)))"
  with publish_grows [of w x]
  have "Some h \<in> set (callbacks ?w1) \<or> (h < length (heap ?w1) \<longrightarrow> live ?w1 h)"
    unfolding grows_def by blast
  moreover have "Some h \<notin> set (callbacks ?w1)"
    using assms(2) by (simp add: purge_filter live_def)
  ultimately show False using assms by (simp add: live_iff)
qed

lemma publish_entries:
  assumes "publish x w = Inr w'"
  shows "map entry_of (new_events w w') = purge w (callbacks w)"
  using publish_pass [of x w] assms by (simp add: pass_ok_def)

lemma purge_live: "c \<in> set (purge w cs) \<Longrightarrow> \<exists>h. c = Some h \<and> live w h"
  by (cases c) (auto simp: purge_filter live_def expired_def)

lemma publish_invoked:
  assumes "Invoked h y \<in> set (new_events w (state_of (publish x w)))"
  shows "y = x" and "Some h \<in> set (purge w (callbacks w))" and "live w h"
proof -
  let ?evs = "new_events w (state_of (publish x w))"
  let ?cs = "purge w (callbacks w)"
  note p = publish_pass [of x w]
  from p assms have "ev_ok x (w\<lparr>callbacks := ?cs\<rparr>) (state_of (publish x w)) (Invoked h y)"
    by (simp add: pass_ok_def)
  then show "y = x" by (simp add: ev_ok_def)
  have "Some h \<in> set (map entry_of ?evs)"
    using assms by (force simp: image_iff)
  moreover have "map entry_of ?evs = take (length ?evs) ?cs"
    using p by (simp add: pass_ok_def)
  ultimately show "Some h \<in> set ?cs" by (auto dest: in_set_takeD)
  then show "live w h" by (auto dest: purge_live)
qed

lemma publish_skipped:
  assumes "Skipped c \<in> set (new_events w (state_of (publish x w)))"
  shows "expired (state_of (publish x w)) c"
proof -
  let ?evs = "new_events w (state_of (publish x w))"
  let ?cs = "purge w (callbacks w)"
  note p = publish_pass [of x w]
  have "c \<in> set (map entry_of ?evs)"
    using assms by (force simp: image_iff)
  moreover have "map entry_of ?evs = take (length ?evs) ?cs"
    using p by (simp add: pass_ok_def)
  ultimately have "c \<in> set ?cs" by (auto dest: in_set_takeD)
  then obtain h where c: "c = Some h" and l: "live w h" by (auto dest: purge_live)
  from p assms have "ev_ok x (w\<lparr>callbacks := ?cs\<rparr>) (state_of (publish x w)) (Skipped c)"
    by (simp add: pass_ok_def)
  then have "\<not> live (state_of (publish x w)) h"
    using c live_in_range [OF l] by (simp add: ev_ok_def)
  then show ?thesis using c by (simp add: live_def)
qed

lemma live_invocations:
  assumes "publish x w = Inr w'" and "live w' h"
  shows "count_list (new_events w w') (Invoked h x) = count_list (purge w (callbacks w)) (Some h)"
proof -
  let ?evs = "new_events w w'"
  have eq: "(Invoked h x = ev) = (Some h = entry_of ev)" if "ev \<in> set ?evs" for ev
  proof (cases ev)
    case (Invoked k y)
    with that publish_invoked(1) [of k y w x] assms(1) have "y = x" by simp
    with Invoked show ?thesis by auto
  next
    case (Skipped c)
    with that publish_skipped [of c w x] assms(1) have "expired w' c" by simp
    with assms(2) have "c \<noteq> Some h" by (auto simp: live_def)
    with Skipped show ?thesis by auto
  qed
  have "count_list ?evs (Invoked h x) = length (filter ((=) (Invoked h x)) ?evs)"
    by (rule count_list_eq_length_filter)
  also have "filter ((=) (Invoked h x)) ?evs = filter (\<lambda>ev. Some h = entry_of ev) ?evs"
    using eq by (intro filter_cong) auto
  also have "length \<dots> = length (filter ((=) (Some h)) (map entry_of ?evs))"
    by (simp add: filter_map comp_def)
  also have "\<dots> = count_list (map entry_of ?evs) (Some h)"
    by (rule count_list_eq_length_filter [symmetric])
  finally show ?thesis using publish_entries [OF assms(1)] by simp
qed


lemma subscribe_live: "live w h \<Longrightarrow> subscribe (Some h) w = w\<lparr>callbacks := callbacks w @ [Some h]\<rparr>"
  by (simp add: subscribe_def live_def)


lemma dispatch_append:
  "dispatch x (as @ bs) w =
     (case dispatch x as w of Inl ew \<Rightarrow> Inl ew | Inr w' \<Rightarrow> dispatch x bs w')"
proof (induction as arbitrary: w)
  case Nil
  show ?case by simp
next
  case (Cons c cs)
  show ?case
  proof (cases "lock c w")
    case None
    then show ?thesis using Cons.IH by simp
  next
    case (Some q)
    obtain h wp where q: "q = (h, wp)" by (cases q)
    show ?thesis using Some q Cons.IH by (simp split: sum.splits prod.splits)
  qed
qed

lemma dispatch_events:
  "pass_ok x cs w (dispatch x cs w) (new_events w (state_of (dispatch x cs w)))"
proof -
  from dispatch_pass [of x cs w]
  obtain evs where p: "pass_ok x cs w (dispatch x cs w) evs" ..
  then have "new_events w (state_of (dispatch x cs w)) = evs"
    by (simp add: pass_ok_def new_events_def)
  with p show ?thesis by simp
qed

lemma dispatch_entries:
  assumes "dispatch x cs w = Inr w'"
  shows "map entry_of (new_events w w') = cs"
  using dispatch_events [of x cs w] assms by (simp add: pass_ok_def)




lemma publish_live_mono:
  assumes "live (state_of (publish x w)) h" and "h < length (heap w)"
  shows "live w h"
proof -
  let ?w1 = "w\<lparr>callbacks := purge w (callbacks w)\<rparr>"
  from publish_grows [of w x] assms have "live ?w1 h" by (simp add: grows_def)
  then show ?thesis by (simp add: live_iff)
qed

lemma dispatch_trace:
  "trace (state_of (dispatch x cs w)) = trace w @ new_events w (state_of (dispatch x cs w))"
  using dispatch_events [of x cs w] by (simp add: pass_ok_def)

lemma publish_raised:
  assumes "publish x w = Inl (e, w')"
  shows "\<exists>n < length (purge w (callbacks w)).
           map entry_of (new_events w w') = take (Suc n) (purge w (callbacks w)) \<and>
           (\<exists>h. purge w (callbacks w) ! n = Some h \<and>
                last (new_events w w') = Invoked h x \<and>
                h < length (heap w') \<and>
                Throw e \<in> set (callback (heap w' ! h) x))"
proof -
  let ?cs = "purge w (callbacks w)"
  let ?evs = "new_events w w'"
  from publish_pass [of x w] assms
  have m: "map entry_of ?evs = take (length ?evs) ?cs"
    and l: "length ?evs \<le> length ?cs"
    and ne: "?evs \<noteq> []"
    and "\<exists>h. last ?evs = Invoked h x \<and> h < length (heap w') \<and>
           Throw e \<in> set (callback (heap w' ! h) x)"
    by (simp_all add: pass_ok_def)
  then obtain h where h: "last ?evs = Invoked h x" "h < length (heap w')"
    "Throw e \<in> set (callback (heap w' ! h) x)" by blast
  let ?n = "length ?evs - 1"
  from ne have sn: "Suc ?n = length ?evs" by (cases ?evs) simp_all
  with l have n: "?n < length ?cs" by simp
  have "?cs ! ?n = take (length ?evs) ?cs ! ?n" using sn by simp
  also have "\<dots> = map entry_of ?evs ! ?n" using m by simp
  also have "\<dots> = entry_of (?evs ! ?n)" using sn by (intro nth_map) simp
  also have "?evs ! ?n = last ?evs" using ne by (simp add: last_conv_nth)
  finally have "?cs ! ?n = Some h" using h(1) by simp
  with n m sn h show ?thesis by (intro exI [of _ ?n]) auto
qed

lemma perform_added:
  "\<exists>added. callbacks (state_of (perform a w)) = callbacks w @ added \<and>
     (\<forall>c \<in> set added. a = Subscribe c)"
  by (cases a) (simp_all add: subscribe_def)

lemma run_added:
  "\<exists>added. callbacks (state_of (run as w)) = callbacks w @ added \<and>
     (\<forall>c \<in> set added. Subscribe c \<in> set as)"
proof (induction as arbitrary: w)
  case Nil
  show ?case by simp
next
  case (Cons a as)
  from perform_added [of a w] obtain ad1 where
    ad1: "callbacks (state_of (perform a w)) = callbacks w @ ad1" "\<forall>c \<in> set ad1. a = Subscribe c"
    by blast
  show ?case
  proof (cases "perform a w")
    case (Inl ew)
    obtain e w' where "ew = (e, w')" by (cases ew)
    with Inl ad1 show ?thesis by (intro exI [of _ ad1]) auto
  next
    case (Inr w')
    from Cons.IH [of w'] obtain ad2 where
      ad2: "callbacks (state_of (run as w')) = callbacks w' @ ad2" "\<forall>c \<in> set ad2. Subscribe c \<in> set as"
      by blast
    with Inr ad1 show ?thesis by (intro exI [of _ "ad1 @ ad2"]) auto
  qed
qed

lemma grows_callback:
  "grows w w' \<Longrightarrow> k < length (heap w) \<Longrightarrow>
     k < length (heap w') \<and> callback (heap w' ! k) = callback (heap w ! k)"
  by (simp add: grows_def)

lemma dispatch_added:
  "\<exists>added. callbacks (state_of (dispatch x cs w)) = callbacks w @ added \<and>
     (\<forall>c \<in> set added. \<exists>k < length (heap (state_of (dispatch x cs w))).
        Subscribe c \<in> set (callback (heap (state_of (dispatch x cs w)) ! k) x))"
proof (induction cs arbitrary: w)
  case Nil
  show ?case by simp
next
  case (Cons c cs)
  show ?case
  proof (cases "lock c w")
    case None
    then show ?thesis using Cons.IH [of "w\<lparr>trace := trace w @ [Skipped c]\<rparr>"] by simp
  next
    case (Some q)
    obtain h wp where q: "q = (h, wp)" by (cases q)
    note lk = lock_Some [OF Some [unfolded q]]
    let ?wi = "wp\<lparr>trace := trace wp @ [Invoked h x]\<rparr>"
    let ?body = "callback (heap wp ! h) x"
    let ?f = "state_of (dispatch x (c # cs) w)"
    from run_added [of ?body ?wi] obtain ad1 where
      ad1: "callbacks (state_of (run ?body ?wi)) = callbacks w @ ad1"
        "\<forall>c \<in> set ad1. Subscribe c \<in> set ?body"
      using lk(6) by auto
    have hr: "h < length (heap ?wi)" using lk(3) live_in_range [of wp h] by simp
    have gr: "grows ?wi (unlock h (state_of (run ?body ?wi)))"
      using run_grows [of ?wi ?body] unlock_grows by (rule grows_trans)
    show ?thesis
    proof (cases "run ?body ?wi")
      case (Inl ew)
      obtain e w' where ew: "ew = (e, w')" by (cases ew)
      have f: "?f = unlock h w'" using Some q Inl ew by simp
      have "h < length (heap ?f) \<and> callback (heap ?f ! h) = callback (heap ?wi ! h)"
        using grows_callback [OF gr hr] Inl ew f by simp
      then have "\<forall>c \<in> set ad1. \<exists>k < length (heap ?f). Subscribe c \<in> set (callback (heap ?f ! k) x)"
        using ad1(2) by auto
      moreover have "callbacks ?f = callbacks w @ ad1"
        using ad1(1) Inl ew f by (simp add: unlock_callbacks)
      ultimately show ?thesis by blast
    next
      case (Inr w')
      let ?w2 = "unlock h w'"
      have f: "?f = state_of (dispatch x cs ?w2)" using Some q Inr by simp
      from Cons.IH [of ?w2] obtain ad2 where
        ad2: "callbacks ?f = callbacks ?w2 @ ad2"
          "\<forall>c \<in> set ad2. \<exists>k < length (heap ?f). Subscribe c \<in> set (callback (heap ?f ! k) x)"
        unfolding f by blast
      have "grows ?wi ?f"
        using gr dispatch_grows [of ?w2 x cs] Inr f by (auto intro: grows_trans)
      from grows_callback [OF this hr]
      have "h < length (heap ?f) \<and> callback (heap ?f ! h) = callback (heap ?wi ! h)" .
      then have "\<forall>c \<in> set ad1. \<exists>k < length (heap ?f). Subscribe c \<in> set (callback (heap ?f ! k) x)"
        using ad1(2) by auto
      with ad2(2) have "\<forall>c \<in> set (ad1 @ ad2).
          \<exists>k < length (heap ?f). Subscribe c \<in> set (callback (heap ?f ! k) x)"
        by auto
      moreover have "callbacks ?f = callbacks w @ ad1 @ ad2"
        using ad1(1) ad2(1) Inr by (simp add: unlock_callbacks)
      ultimately show ?thesis by blast
    qed
  qed
qed

lemma publish_added:
  "\<exists>added. callbacks (state_of (publish x w)) = purge w (callbacks w) @ added \<and>
     (\<forall>c \<in> set added. \<exists>k < length (heap (state_of (publish x w))).
        Subscribe c \<in> set (callback (heap (state_of (publish x w)) ! k) x))"
  using dispatch_added [of x "purge w (callbacks w)" "w\<lparr>callbacks := purge w (callbacks w)\<rparr>"]
  by (simp add: publish_unfold)

lemma purge_count_live:
  "live w h \<Longrightarrow> count_list (purge w cs) (Some h) = count_list cs (Some h)"
  by (induction cs) (auto simp: live_def)

lemma run_append:
  "run (as @ bs) w = (case run as w of Inl ew \<Rightarrow> Inl ew | Inr w' \<Rightarrow> run bs w')"
  by (induction as arbitrary: w) (simp_all split: sum.splits)

lemma grows_listed: "grows w w' \<Longrightarrow> c \<in> set (callbacks w) \<Longrightarrow> c \<in> set (callbacks w')"
  by (auto simp: grows_def dest: set_mono_prefix)




lemma grows_trace: "grows w w' \<Longrightarrow> prefix (trace w) (trace w')"
  by (simp add: grows_def)

lemma lock_live:
  "live w h \<Longrightarrow>
     lock (Some h) w =
       Some (h, w\<lparr>heap := (heap w)[h := (heap w ! h)\<lparr>pins := pins (heap w ! h) + 1\<rparr>]\<rparr>)"
  by (simp add: lock_def live_def)

lemma dispatch_reach:
  assumes "dispatch x s1 w = Inr wa" and "live wa h"
  shows "\<exists>wp. lock (Some h) wa = Some (h, wp) \<and>
           dispatch x (s1 @ Some h # s2) w =
             (case run (callback (heap wp ! h) x) (wp\<lparr>trace := trace wp @ [Invoked h x]\<rparr>) of
                Inl (e, w') \<Rightarrow> Inl (e, unlock h w')
              | Inr w' \<Rightarrow> dispatch x s2 (unlock h w')) \<and>
           new_events w (state_of (dispatch x (s1 @ Some h # s2) w)) ! length s1 = Invoked h x"
proof -
  from lock_live [OF assms(2)] obtain wp where lk: "lock (Some h) wa = Some (h, wp)" by blast
  let ?wi = "wp\<lparr>trace := trace wp @ [Invoked h x]\<rparr>"
  let ?body = "callback (heap wp ! h) x"
  let ?f = "state_of (dispatch x (s1 @ Some h # s2) w)"
  have d: "dispatch x (s1 @ Some h # s2) w =
      (case run ?body ?wi of Inl (e, w') \<Rightarrow> Inl (e, unlock h w')
       | Inr w' \<Rightarrow> dispatch x s2 (unlock h w'))"
    using assms(1) lk by (simp add: dispatch_append)
  define evs1 where "evs1 = new_events w wa"
  have ta: "trace wa = trace w @ evs1"
    using dispatch_trace [of x s1 w] assms(1) by (simp add: evs1_def)
  have "map entry_of evs1 = s1"
    unfolding evs1_def using assms(1) by (rule dispatch_entries)
  then have len: "length evs1 = length s1"
    by (metis length_map)
  have ti: "trace ?wi = trace w @ evs1 @ [Invoked h x]"
    using lock_Some(5) [OF lk] ta by simp
  have g: "grows ?wi ?f"
  proof (cases "run ?body ?wi")
    case (Inl ew)
    obtain e w' where ew: "ew = (e, w')" by (cases ew)
    have "?f = unlock h w'" using d Inl ew by simp
    moreover have "grows ?wi w'" using run_grows [of ?wi ?body] Inl ew by simp
    ultimately show ?thesis using unlock_grows [of w' h] by (auto intro: grows_trans)
  next
    case (Inr w')
    have "?f = state_of (dispatch x s2 (unlock h w'))" using d Inr by simp
    moreover have "grows ?wi w'" using run_grows [of ?wi ?body] Inr by simp
    ultimately show ?thesis
      using unlock_grows [of w' h] dispatch_grows [of "unlock h w'" x s2]
      by (auto intro: grows_trans)
  qed
  from grows_trace [OF g] obtain rest where "trace ?f = trace ?wi @ rest"
    by (auto simp: prefix_def)
  with ti have "trace ?f = trace w @ (evs1 @ Invoked h x # rest)" by simp
  then have "new_events w ?f = evs1 @ Invoked h x # rest"
    by (simp add: new_events_def)
  then have "new_events w ?f ! length s1 = Invoked h x"
    using len by (simp add: nth_append)
  with lk d show ?thesis by blast
qed

lemma publish_reach:
  assumes "purge w (callbacks w) = s1 @ Some h # s2"
    and "dispatch x s1 (w\<lparr>callbacks := purge w (callbacks w)\<rparr>) = Inr wa"
    and "live wa h"
  shows "\<exists>wp. lock (Some h) wa = Some (h, wp) \<and>
           publish x w =
             (case run (callback (heap wp ! h) x) (wp\<lparr>trace := trace wp @ [Invoked h x]\<rparr>) of
                Inl (e, w') \<Rightarrow> Inl (e, unlock h w')
              | Inr w' \<Rightarrow> dispatch x s2 (unlock h w')) \<and>
           new_events w (state_of (publish x w)) ! length s1 = Invoked h x"
proof -
  let ?w1 = "w\<lparr>callbacks := purge w (callbacks w)\<rparr>"
  have p: "publish x w = dispatch x (s1 @ Some h # s2) ?w1"
    using assms(1) by (simp add: publish_unfold)
  have "new_events ?w1 v = new_events w v" for v
    by (simp add: new_events_def)
  with dispatch_reach [OF assms(2,3), of s2] p show ?thesis by simp
qed

lemma publish_aligned:
  "map entry_of (new_events w (state_of (publish x w))) =
     take (length (new_events w (state_of (publish x w)))) (purge w (callbacks w))"
  using publish_pass [of x w] by (simp add: pass_ok_def)

lemma count_list_take_le: "count_list (take n xs) a \<le> count_list xs a"
proof -
  have "count_list xs a = count_list (take n xs) a + count_list (drop n xs) a"
    by (metis append_take_drop_id count_list_append)
  then show ?thesis by simp
qed

lemma invoked_count_le:
  "count_list (new_events w (state_of (publish x w))) (Invoked h x)
     \<le> count_list (purge w (callbacks w)) (Some h)"
proof -
  let ?evs = "new_events w (state_of (publish x w))"
  have "count_list ?evs (Invoked h x) \<le> count_list (map entry_of ?evs) (entry_of (Invoked h x))"
    by (rule count_list_map_ge)
  also have "\<dots> = count_list (take (length ?evs) (purge w (callbacks w))) (Some h)"
    using publish_aligned [of w x] by simp
  also have "\<dots> \<le> count_list (purge w (callbacks w)) (Some h)"
    by (rule count_list_take_le)
  finally show ?thesis .
qed

section \<open>The claims\<close>






text \<open>
  C3. Let the callback of a snapshot entry \<open>h\<close> call \<open>subscribe\<close> with a handle \<open>n\<close> that
  is live at that moment and has no entry in the snapshot. The call appends \<open>n\<close> to the
  sequence. The publication in progress does not call \<open>n\<close>, whatever happens in the
  rest of it, and \<open>n\<close> is in the sequence when the publication is over. If \<open>n\<close> is live
  when the next publication starts, it is in that publication's snapshot; when the
  dispatch pass of that publication reaches an entry of \<open>n\<close> with \<open>n\<close> live, it runs the
  callback of \<open>n\<close> with the arguments of that publication, and this call is the event
  of the entry, whatever the callback then does to its own handle. In particular a next
  publication that returns with \<open>n\<close> still live has called it.
\<close>

theorem subscribe_during_dispatch:
  assumes "purge w (callbacks w) = s1 @ Some h # s2"
    and "dispatch x s1 (w\<lparr>callbacks := purge w (callbacks w)\<rparr>) = Inr wa"
    and "lock (Some h) wa = Some (h, wp)"
    and "callback (heap wp ! h) x = as1 @ Subscribe (Some n) # as2"
    and "run as1 (wp\<lparr>trace := trace wp @ [Invoked h x]\<rparr>) = Inr wb"
    and "live wb n"
    and "Some n \<notin> set (purge w (callbacks w))"
  shows "callbacks (subscribe (Some n) wb) = callbacks wb @ [Some n] \<and>
         (\<forall>y. Invoked n y \<notin> set (new_events w (state_of (publish x w)))) \<and>
         Some n \<in> set (callbacks (state_of (publish x w))) \<and>
         (\<forall>x' w''. publish x' (state_of (publish x w)) = Inr w'' \<and> live w'' n \<longrightarrow>
            Invoked n x' \<in> set (new_events (state_of (publish x w)) w'')) \<and>
         (live (state_of (publish x w)) n \<longrightarrow>
            Some n \<in> set (purge (state_of (publish x w)) (callbacks (state_of (publish x w))))) \<and>
         (\<forall>x' t1 t2 wk.
            purge (state_of (publish x w)) (callbacks (state_of (publish x w))) = t1 @ Some n # t2 \<and>
            dispatch x' t1 ((state_of (publish x w))
              \<lparr>callbacks := purge (state_of (publish x w)) (callbacks (state_of (publish x w)))\<rparr>)
              = Inr wk \<and>
            live wk n \<longrightarrow>
            (\<exists>wq. lock (Some n) wk = Some (n, wq) \<and>
               publish x' (state_of (publish x w)) =
                 (case run (callback (heap wq ! n) x') (wq\<lparr>trace := trace wq @ [Invoked n x']\<rparr>) of
                    Inl (e, v) \<Rightarrow> Inl (e, unlock n v)
                  | Inr v \<Rightarrow> dispatch x' t2 (unlock n v)) \<and>
               new_events (state_of (publish x w)) (state_of (publish x' (state_of (publish x w))))
                 ! length t1 = Invoked n x'))"
proof -
  let ?w1 = "w\<lparr>callbacks := purge w (callbacks w)\<rparr>"
  let ?wi = "wp\<lparr>trace := trace wp @ [Invoked h x]\<rparr>"
  let ?wc = "subscribe (Some n) wb"
  let ?f = "state_of (publish x w)"
  have 1: "callbacks ?wc = callbacks wb @ [Some n]"
    using assms(6) by (simp add: subscribe_live)
  have 2: "Invoked n y \<notin> set (new_events w ?f)" for y
    using publish_invoked(2) [of n y w x] assms(7) by blast
  have body: "run (callback (heap wp ! h) x) ?wi = run as2 ?wc"
    using assms(4,5) by (simp add: run_append)
  have pub: "publish x w = dispatch x (Some h # s2) wa"
    using assms(1,2) by (simp add: publish_unfold dispatch_append)
  have g: "grows ?wc ?f"
  proof (cases "run as2 ?wc")
    case (Inl ew)
    obtain e w' where ew: "ew = (e, w')" by (cases ew)
    have "?f = unlock h w'" using pub assms(3) body Inl ew by simp
    moreover have "grows ?wc w'" using run_grows [of ?wc as2] Inl ew by simp
    ultimately show ?thesis using unlock_grows [of w' h] by (auto intro: grows_trans)
  next
    case (Inr w')
    have "?f = state_of (dispatch x s2 (unlock h w'))" using pub assms(3) body Inr by simp
    moreover have "grows ?wc w'" using run_grows [of ?wc as2] Inr by simp
    ultimately show ?thesis
      using unlock_grows [of w' h] dispatch_grows [of "unlock h w'" x s2]
      by (auto intro: grows_trans)
  qed
  have 3: "Some n \<in> set (callbacks ?f)"
    using g 1 by (auto intro: grows_listed)
  have hw: "length (heap ?wc) = length (heap wb)"
    by (simp add: subscribe_def)
  have "length (heap ?wc) \<le> length (heap ?f)"
    using g by (simp add: grows_def)
  then have r: "n < length (heap ?f)"
    using hw live_in_range [OF assms(6)] by simp
  have 4: "Invoked n x' \<in> set (new_events ?f w'')"
    if p: "publish x' ?f = Inr w''" and l: "live w'' n" for x' w''
  proof -
    have lf: "live ?f n" using publish_live_mono [of x' ?f n] p l r by simp
    then have "Some n \<in> set (purge ?f (callbacks ?f))"
      using 3 by (simp add: purge_filter live_def)
    then have "count_list (purge ?f (callbacks ?f)) (Some n) \<noteq> 0"
      by (simp add: count_list_0_iff)
    then have "count_list (new_events ?f w'') (Invoked n x') \<noteq> 0"
      using live_invocations [OF p l] by simp
    then show ?thesis by (simp add: count_list_0_iff)
  qed
  have two: "\<forall>y. Invoked n y \<notin> set (new_events w ?f)" using 2 by blast
  have four: "\<forall>x' w''. publish x' ?f = Inr w'' \<and> live w'' n \<longrightarrow>
      Invoked n x' \<in> set (new_events ?f w'')" using 4 by blast
  have 5: "live ?f n \<longrightarrow> Some n \<in> set (purge ?f (callbacks ?f))"
    using 3 by (simp add: purge_filter live_def)
  have 6: "\<forall>x' t1 t2 wk.
      purge ?f (callbacks ?f) = t1 @ Some n # t2 \<and>
      dispatch x' t1 (?f\<lparr>callbacks := purge ?f (callbacks ?f)\<rparr>) = Inr wk \<and>
      live wk n \<longrightarrow>
      (\<exists>wq. lock (Some n) wk = Some (n, wq) \<and>
         publish x' ?f =
           (case run (callback (heap wq ! n) x') (wq\<lparr>trace := trace wq @ [Invoked n x']\<rparr>) of
              Inl (e, v) \<Rightarrow> Inl (e, unlock n v)
            | Inr v \<Rightarrow> dispatch x' t2 (unlock n v)) \<and>
         new_events ?f (state_of (publish x' ?f)) ! length t1 = Invoked n x')"
  proof (intro allI impI)
    fix x' t1 t2 wk
    assume "purge ?f (callbacks ?f) = t1 @ Some n # t2 \<and>
      dispatch x' t1 (?f\<lparr>callbacks := purge ?f (callbacks ?f)\<rparr>) = Inr wk \<and>
      live wk n"
    then have c: "purge ?f (callbacks ?f) = t1 @ Some n # t2"
      and d: "dispatch x' t1 (?f\<lparr>callbacks := purge ?f (callbacks ?f)\<rparr>) = Inr wk"
      and l: "live wk n" by blast+
    from publish_reach [OF c d l]
    show "\<exists>wq. lock (Some n) wk = Some (n, wq) \<and>
         publish x' ?f =
           (case run (callback (heap wq ! n) x') (wq\<lparr>trace := trace wq @ [Invoked n x']\<rparr>) of
              Inl (e, v) \<Rightarrow> Inl (e, unlock n v)
            | Inr v \<Rightarrow> dispatch x' t2 (unlock n v)) \<and>
         new_events ?f (state_of (publish x' ?f)) ! length t1 = Invoked n x'" .
  qed
  show ?thesis
    by (rule conjI [OF 1 conjI [OF two conjI [OF 3 conjI [OF four conjI [OF 5 6]]]]])
qed

theorem subscribe_during_dispatch_witness:
  "purge ex_sub (callbacks ex_sub) = [] @ Some 0 # [] \<and>
   dispatch (5, ''x'') [] (ex_sub\<lparr>callbacks := purge ex_sub (callbacks ex_sub)\<rparr>) = Inr ex_sub \<and>
   lock (Some 0) ex_sub = Some (0, ex_sub_locked) \<and>
   callback (heap ex_sub_locked ! 0) (5, ''x'') = [Create newcomer] @ Subscribe (Some 1) # [] \<and>
   run [Create newcomer] (ex_sub_locked\<lparr>trace := trace ex_sub_locked @ [Invoked 0 (5, ''x'')]\<rparr>)
     = Inr ex_sub_made \<and>
   live ex_sub_made 1 \<and>
   Some 1 \<notin> set (purge ex_sub (callbacks ex_sub)) \<and>
   state_of (publish (5, ''x'') ex_sub) = ex_sub_done \<and>
   (publish (7, ''z'') ex_sub_done = Inr ex_sub_next \<and> live ex_sub_next 1) \<and>
   callbacks (subscribe (Some 1) ex_sub_made) = callbacks ex_sub_made @ [Some 1] \<and>
   (\<forall>y. Invoked 1 y \<notin> set (new_events ex_sub ex_sub_done)) \<and>
   Some 1 \<in> set (callbacks ex_sub_done) \<and>
   Invoked 1 (7, ''z'') \<in> set (new_events ex_sub_done ex_sub_next) \<and>
   live ex_sub_done 1 \<and>
   Some 1 \<in> set (purge ex_sub_done (callbacks ex_sub_done)) \<and>
   (purge ex_sub_done (callbacks ex_sub_done) = [Some 0] @ Some 1 # [] \<and>
    dispatch (6, ''y'') [Some 0]
      (ex_sub_done\<lparr>callbacks := purge ex_sub_done (callbacks ex_sub_done)\<rparr>) = Inr ex_sub_turn \<and>
    live ex_sub_turn 1) \<and>
   lock (Some 1) ex_sub_turn = Some (1, ex_sub_pinned) \<and>
   publish (6, ''y'') ex_sub_done = Inr ex_sub_gone \<and>
   new_events ex_sub_done ex_sub_gone ! 1 = Invoked 1 (6, ''y'') \<and>
   \<not> live ex_sub_gone 1"
proof -
  have a: "purge ex_sub (callbacks ex_sub) = [] @ Some 0 # []"
    by (simp add: ex_sub_def block_def expired_def use_count_def)
  have b: "dispatch (5, ''x'') [] (ex_sub\<lparr>callbacks := purge ex_sub (callbacks ex_sub)\<rparr>)
      = Inr ex_sub"
    by (simp add: ex_sub_def block_def expired_def use_count_def)
  have c: "lock (Some 0) ex_sub = Some (0, ex_sub_locked)"
    by (simp add: ex_sub_def ex_sub_locked_def block_def lock_def expired_def use_count_def)
  have d: "callback (heap ex_sub_locked ! 0) (5, ''x'') = [Create newcomer] @ Subscribe (Some 1) # []"
    by (simp add: ex_sub_locked_def subscriber_def)
  have e: "run [Create newcomer]
      (ex_sub_locked\<lparr>trace := trace ex_sub_locked @ [Invoked 0 (5, ''x'')]\<rparr>) = Inr ex_sub_made"
    by (simp add: ex_sub_locked_def ex_sub_made_def block_def)
  have f: "live ex_sub_made 1"
    by (simp add: ex_sub_made_def block_def live_iff)
  have g: "Some 1 \<notin> set (purge ex_sub (callbacks ex_sub))"
    by (simp add: ex_sub_def block_def expired_def use_count_def)
  have h: "state_of (publish (5, ''x'') ex_sub) = ex_sub_done"
    by (simp add: ex_sub_def ex_sub_done_def block_def subscriber_def publish_def subscribe_def
        expired_def use_count_def lock_def unlock_def)
  have i: "publish (7, ''z'') ex_sub_done = Inr ex_sub_next \<and> live ex_sub_next 1"
    by (simp add: ex_sub_done_def ex_sub_next_def block_def subscriber_def newcomer_def
        publish_def expired_def use_count_def lock_def unlock_def live_iff)
  note t = subscribe_during_dispatch [OF a b c d e f g, unfolded h]
  have j: "callbacks (subscribe (Some 1) ex_sub_made) = callbacks ex_sub_made @ [Some 1]"
    by (rule t [THEN conjunct1])
  have k: "\<forall>y. Invoked 1 y \<notin> set (new_events ex_sub ex_sub_done)"
    by (rule t [THEN conjunct2, THEN conjunct1])
  have l: "Some 1 \<in> set (callbacks ex_sub_done)"
    by (rule t [THEN conjunct2, THEN conjunct2, THEN conjunct1])
  have m: "Invoked 1 (7, ''z'') \<in> set (new_events ex_sub_done ex_sub_next)"
    by (rule t [THEN conjunct2, THEN conjunct2, THEN conjunct2, THEN conjunct1,
                THEN spec, THEN spec, THEN mp, OF i])
  have n: "live ex_sub_done 1"
    by (simp add: ex_sub_done_def block_def live_iff)
  have o: "Some 1 \<in> set (purge ex_sub_done (callbacks ex_sub_done))"
    by (rule t [THEN conjunct2, THEN conjunct2, THEN conjunct2, THEN conjunct2, THEN conjunct1,
                THEN mp, OF n])
  have p: "purge ex_sub_done (callbacks ex_sub_done) = [Some 0] @ Some 1 # [] \<and>
      dispatch (6, ''y'') [Some 0]
        (ex_sub_done\<lparr>callbacks := purge ex_sub_done (callbacks ex_sub_done)\<rparr>) = Inr ex_sub_turn \<and>
      live ex_sub_turn 1"
    by (simp add: ex_sub_done_def ex_sub_turn_def block_def subscriber_def expired_def
        use_count_def lock_def unlock_def live_iff)
  have q: "lock (Some 1) ex_sub_turn = Some (1, ex_sub_pinned)"
    by (simp add: ex_sub_turn_def ex_sub_pinned_def block_def lock_def expired_def use_count_def)
  from t [THEN conjunct2, THEN conjunct2, THEN conjunct2, THEN conjunct2, THEN conjunct2,
          THEN spec, THEN spec, THEN spec, THEN spec, THEN mp, OF p]
  obtain wq where
    lk: "lock (Some 1) ex_sub_turn = Some (1, wq)"
    and pub: "publish (6, ''y'') ex_sub_done =
      (case run (callback (heap wq ! 1) (6, ''y''))
              (wq\<lparr>trace := trace wq @ [Invoked 1 (6, ''y'')]\<rparr>) of
         Inl (e, v) \<Rightarrow> Inl (e, unlock 1 v)
       | Inr v \<Rightarrow> dispatch (6, ''y'') [] (unlock 1 v))"
    and ev: "new_events ex_sub_done (state_of (publish (6, ''y'') ex_sub_done))
        ! length [Some (0 :: nat)] = Invoked 1 (6, ''y'')"
    by blast
  from lk q have wq: "wq = ex_sub_pinned" by simp
  have r: "publish (6, ''y'') ex_sub_done = Inr ex_sub_gone"
    unfolding pub wq
    by (simp add: ex_sub_pinned_def ex_sub_gone_def block_def newcomer_def unlock_def)
  have s: "new_events ex_sub_done ex_sub_gone ! 1 = Invoked 1 (6, ''y'')"
    using ev by (simp add: r)
  have u: "\<not> live ex_sub_gone 1"
    by (simp add: ex_sub_gone_def block_def live_iff)
  show ?thesis
    by (rule conjI [OF a conjI [OF b conjI [OF c conjI [OF d conjI [OF e conjI [OF f conjI [OF g conjI [OF h conjI [OF i conjI [OF j conjI [OF k conjI [OF l conjI [OF m conjI [OF n conjI [OF o conjI [OF p conjI [OF q conjI [OF r conjI [OF s u]]]]]]]]]]]]]]]]]]])
qed

text \<open>
  C4. Subscribing a weak observation that is already expired changes nothing: the state,
  and with it the sequence, is the one before the call, the call returns normally also
  when listener code makes it, and an empty publisher still has no subscriber.
\<close>

theorem subscribe_expired_noop:
  "expired w c \<Longrightarrow>
     subscribe c w = w \<and> perform (Subscribe c) w = Inr w \<and>
     (callbacks w = [] \<longrightarrow> length (callbacks (subscribe c w)) = 0)"
  by (simp add: subscribe_def)

theorem subscribe_expired_noop_witness:
  "expired ex_gone (Some 0) \<and> subscribe (Some 0) ex_gone = ex_gone \<and>
   callbacks ex_gone = [] \<and> length (callbacks (subscribe (Some 0) ex_gone)) = 0"
proof -
  have h: "expired ex_gone (Some 0)"
    by (simp add: expired_def use_count_def ex_gone_def block_def)
  have e: "callbacks ex_gone = []" by (simp add: ex_gone_def)
  show ?thesis using h e subscribe_expired_noop [OF h] by simp
qed

text \<open>
  C5. The purge loop keeps exactly the entries that are not expired, in their order, and
  the dispatch pass of \<open>publish\<close> runs over what it keeps. Releasing a strong reference
  leaves the sequence as it is, so the entry of a handle that expired since the previous
  publication is still there; the next \<open>publish\<close> removes it and does not invoke its
  callback.
\<close>

theorem purge_removes_expired:
  "purge w cs = filter (\<lambda>c. \<not> expired w c) cs \<and>
   publish x w =
     dispatch x (filter (\<lambda>c. \<not> expired w c) (callbacks w))
       (w\<lparr>callbacks := filter (\<lambda>c. \<not> expired w c) (callbacks w)\<rparr>) \<and>
   callbacks (state_of (perform (Release h) w)) = callbacks w \<and>
   (h < length (heap w) \<and> \<not> live w h \<longrightarrow>
      Some h \<notin> set (callbacks (state_of (publish x w))) \<and>
      (\<forall>y. Invoked h y \<notin> set (new_events w (state_of (publish x w)))))"
  using dead_not_invoked [of h w _ x] dead_not_listed [of h w x]
  by (simp add: purge_filter publish_unfold)

theorem purge_removes_expired_witness:
  "(1 < length (heap (state_of (perform (Release 1) ex_three))) \<and>
    \<not> live (state_of (perform (Release 1) ex_three)) 1) \<and>
   Some 1 \<in> set (callbacks (state_of (perform (Release 1) ex_three))) \<and>
   Some 1 \<notin> set (callbacks (state_of (publish (5, ''x'') (state_of (perform (Release 1) ex_three))))) \<and>
   (\<forall>y. Invoked 1 y \<notin> set (new_events (state_of (perform (Release 1) ex_three))
      (state_of (publish (5, ''x'') (state_of (perform (Release 1) ex_three))))))"
proof -
  let ?w = "state_of (perform (Release 1) ex_three)"
  have h: "1 < length (heap ?w) \<and> \<not> live ?w 1"
    by (simp add: ex_three_def block_def live_iff)
  have c: "Some 1 \<in> set (callbacks ?w)"
    by (simp add: ex_three_def)
  show ?thesis
    using h c purge_removes_expired [of ?w "callbacks ?w" "(5, ''x'')" 1] by blast
qed

text \<open>
  C6, as amended. A \<open>publish\<close> that returns has processed every snapshot entry, once and
  in order. A \<open>publish\<close> that a callback leaves by an exception has processed the entries
  up to and including that callback's and none behind it.
\<close>

theorem publish_returns_after_last_entry:
  "(publish x w = Inr w' \<longrightarrow> map entry_of (new_events w w') = purge w (callbacks w)) \<and>
   (publish x w = Inl (e, w') \<longrightarrow>
      (\<exists>n < length (purge w (callbacks w)).
         map entry_of (new_events w w') = take (Suc n) (purge w (callbacks w)) \<and>
         (\<exists>h. purge w (callbacks w) ! n = Some h \<and>
              last (new_events w w') = Invoked h x \<and>
              Throw e \<in> set (callback (heap w' ! h) x))))"
  using publish_entries [of x w w'] publish_raised [of x w e w'] by blast

theorem publish_returns_after_last_entry_witness:
  "(publish (5, ''x'') ex_self = Inr ex_self_done \<and>
    map entry_of (new_events ex_self ex_self_done) = purge ex_self (callbacks ex_self)) \<and>
   (publish (5, ''x'') ex_throw = Inl (7, ex_throw_done) \<and>
    (\<exists>n < length (purge ex_throw (callbacks ex_throw)).
       map entry_of (new_events ex_throw ex_throw_done) =
         take (Suc n) (purge ex_throw (callbacks ex_throw)) \<and>
       (\<exists>h. purge ex_throw (callbacks ex_throw) ! n = Some h \<and>
            last (new_events ex_throw ex_throw_done) = Invoked h (5, ''x'') \<and>
            Throw 7 \<in> set (callback (heap ex_throw_done ! h) (5, ''x'')))))"
proof -
  have a: "publish (5, ''x'') ex_throw = Inl (7, ex_throw_done)"
    by (simp add: ex_throw_def ex_throw_done_def block_def idle_def thrower_def publish_def
        expired_def use_count_def lock_def unlock_def)
  have b: "publish (5, ''x'') ex_self = Inr ex_self_done"
    by (simp add: ex_self_def ex_self_done_def block_def idle_def self_release_def publish_def
        expired_def use_count_def lock_def unlock_def)
  have c: "\<exists>n < length (purge ex_throw (callbacks ex_throw)).
       map entry_of (new_events ex_throw ex_throw_done) =
         take (Suc n) (purge ex_throw (callbacks ex_throw)) \<and>
       (\<exists>h. purge ex_throw (callbacks ex_throw) ! n = Some h \<and>
            last (new_events ex_throw ex_throw_done) = Invoked h (5, ''x'') \<and>
            Throw 7 \<in> set (callback (heap ex_throw_done ! h) (5, ''x'')))"
    by (rule publish_returns_after_last_entry [THEN conjunct2, THEN mp, OF a])
  have d: "map entry_of (new_events ex_self ex_self_done) = purge ex_self (callbacks ex_self)"
    by (rule publish_returns_after_last_entry [THEN conjunct1, THEN mp, OF b])
  from a b c d show ?thesis by (intro conjI)
qed

text \<open>
  The claim as stated fails: A throws, \<open>publish\<close> returns the exception, and B, second
  in the snapshot and live throughout, has not been processed.
\<close>

theorem publish_returns_after_last_entry_counterexample:
  "publish (5, ''x'') ex_throw = Inl (7, ex_throw_done) \<and>
   purge ex_throw (callbacks ex_throw) = [Some 0, Some 1] \<and>
   live ex_throw 1 \<and> live ex_throw_done 1 \<and>
   new_events ex_throw ex_throw_done = [Invoked 0 (5, ''x'')] \<and>
   map entry_of (new_events ex_throw ex_throw_done) \<noteq> purge ex_throw (callbacks ex_throw)"
  by (simp add: ex_throw_def ex_throw_done_def block_def idle_def thrower_def publish_def
      expired_def use_count_def lock_def unlock_def live_iff new_events_def)

text \<open>
  C7. When the callback of a snapshot entry throws, \<open>publish\<close> returns that exception to
  its caller: the entries before it have been processed, its own call is the last event,
  and nothing behind it is invoked. Every exception \<open>publish\<close> returns was thrown by the
  body of the callback called last, so the purge raises none; \<open>subscribe\<close> called by
  listener code returns normally.
\<close>

theorem callback_error_propagates:
  assumes "purge w (callbacks w) = s1 @ Some h # s2"
    and "dispatch x s1 (w\<lparr>callbacks := purge w (callbacks w)\<rparr>) = Inr wa"
    and "lock (Some h) wa = Some (h, wp)"
    and "run (callback (heap wp ! h) x) (wp\<lparr>trace := trace wp @ [Invoked h x]\<rparr>) = Inl (e, wr)"
  shows "publish x w = Inl (e, unlock h wr) \<and>
         map entry_of (new_events w (unlock h wr)) = s1 @ [Some h] \<and>
         new_events wa (unlock h wr) = [Invoked h x] \<and>
         (\<forall>e' w'. publish x w = Inl (e', w') \<longrightarrow>
            (\<exists>k. last (new_events w w') = Invoked k x \<and>
                 Throw e' \<in> set (callback (heap w' ! k) x))) \<and>
         (\<forall>c v. perform (Subscribe c) v = Inr (subscribe c v))"
proof -
  let ?w1 = "w\<lparr>callbacks := purge w (callbacks w)\<rparr>"
  let ?wi = "wp\<lparr>trace := trace wp @ [Invoked h x]\<rparr>"
  have step: "dispatch x (Some h # s2) wa = Inl (e, unlock h wr)"
    using assms(3,4) by simp
  then have p: "publish x w = Inl (e, unlock h wr)"
    using assms(1,2) by (simp add: publish_unfold dispatch_append)
  have "trace wr = trace ?wi"
    using run_trace [of "callback (heap wp ! h) x" ?wi] assms(4) by simp
  then have t: "trace (unlock h wr) = trace wa @ [Invoked h x]"
    using lock_Some(5) [OF assms(3)] by (simp add: unlock_trace)
  then have n1: "new_events wa (unlock h wr) = [Invoked h x]"
    by (simp add: new_events_def)
  define evs1 where "evs1 = new_events ?w1 wa"
  have ta: "trace wa = trace w @ evs1"
    using dispatch_trace [of x s1 ?w1] assms(2) by (simp add: evs1_def)
  have "map entry_of evs1 = s1"
    unfolding evs1_def using assms(2) by (rule dispatch_entries)
  moreover have "new_events w (unlock h wr) = evs1 @ [Invoked h x]"
    using t ta by (simp add: new_events_def)
  ultimately have n2: "map entry_of (new_events w (unlock h wr)) = s1 @ [Some h]"
    by simp
  have "\<exists>k. last (new_events w w') = Invoked k x \<and> Throw e' \<in> set (callback (heap w' ! k) x)"
    if "publish x w = Inl (e', w')" for e' w'
    using publish_raised [OF that] by blast
  with p n1 n2 show ?thesis by simp
qed

theorem callback_error_propagates_witness:
  "purge ex_throw (callbacks ex_throw) = [] @ Some 0 # [Some 1] \<and>
   dispatch (5, ''x'') [] (ex_throw\<lparr>callbacks := purge ex_throw (callbacks ex_throw)\<rparr>) = Inr ex_throw \<and>
   lock (Some 0) ex_throw = Some (0, ex_throw_locked) \<and>
   run (callback (heap ex_throw_locked ! 0) (5, ''x''))
     (ex_throw_locked\<lparr>trace := trace ex_throw_locked @ [Invoked 0 (5, ''x'')]\<rparr>)
     = Inl (7, ex_throw_raised) \<and>
   publish (5, ''x'') ex_throw = Inl (7, unlock 0 ex_throw_raised) \<and>
   map entry_of (new_events ex_throw (unlock 0 ex_throw_raised)) = [Some 0] \<and>
   new_events ex_throw (unlock 0 ex_throw_raised) = [Invoked 0 (5, ''x'')]"
proof -
  have a: "purge ex_throw (callbacks ex_throw) = [] @ Some 0 # [Some 1]"
    by (simp add: ex_throw_def block_def expired_def use_count_def)
  have b: "dispatch (5, ''x'') [] (ex_throw\<lparr>callbacks := purge ex_throw (callbacks ex_throw)\<rparr>)
      = Inr ex_throw"
    by (simp add: ex_throw_def block_def expired_def use_count_def)
  have c: "lock (Some 0) ex_throw = Some (0, ex_throw_locked)"
    by (simp add: ex_throw_def ex_throw_locked_def block_def lock_def expired_def use_count_def)
  have d: "run (callback (heap ex_throw_locked ! 0) (5, ''x''))
      (ex_throw_locked\<lparr>trace := trace ex_throw_locked @ [Invoked 0 (5, ''x'')]\<rparr>)
      = Inl (7, ex_throw_raised)"
    by (simp add: ex_throw_locked_def ex_throw_raised_def thrower_def)
  from callback_error_propagates [OF a b c d] a b c d show ?thesis by simp
qed

text \<open>
  C8. \<open>subscribe\<close> does not look for an entry of the same handle: two calls with a live
  handle append two entries, and the purge of a publication keeps every entry of a live
  handle. At each of these entries that the dispatch pass reaches with the handle live,
  the callback is run, with the published arguments and on the state the pass has
  reached, and the call is the event of that entry; the handle is never called more
  often than it has entries. A publication that returns with the handle still live has
  called it once for each of its entries, always with the published arguments, and
  keeps those entries; it leaves exactly as many when no callback subscribes the
  handle again. So a handle subscribed twice and nowhere else has its callback run
  exactly twice by every such publication.
\<close>

theorem subscribe_twice_dispatches_twice:
  "(live w0 h \<longrightarrow>
      callbacks (subscribe (Some h) (subscribe (Some h) w0)) = callbacks w0 @ [Some h, Some h] \<and>
      count_list (callbacks (subscribe (Some h) (subscribe (Some h) w0))) (Some h)
        = count_list (callbacks w0) (Some h) + 2) \<and>
   (live w h \<and> publish x w = Inr w' \<and> live w' h \<longrightarrow>
      count_list (new_events w w') (Invoked h x) = count_list (callbacks w) (Some h) \<and>
      (\<forall>y. Invoked h y \<in> set (new_events w w') \<longrightarrow> y = x) \<and>
      count_list (callbacks w) (Some h) \<le> count_list (callbacks w') (Some h) \<and>
      ((\<forall>k < length (heap w'). Subscribe (Some h) \<notin> set (callback (heap w' ! k) x)) \<longrightarrow>
         count_list (callbacks w') (Some h) = count_list (callbacks w) (Some h))) \<and>
   (live w h \<longrightarrow>
      count_list (purge w (callbacks w)) (Some h) = count_list (callbacks w) (Some h)) \<and>
   (purge w (callbacks w) = s1 @ Some h # s2 \<and>
    dispatch x s1 (w\<lparr>callbacks := purge w (callbacks w)\<rparr>) = Inr wa \<and> live wa h \<longrightarrow>
      (\<exists>wp. lock (Some h) wa = Some (h, wp) \<and>
         publish x w =
           (case run (callback (heap wp ! h) x) (wp\<lparr>trace := trace wp @ [Invoked h x]\<rparr>) of
              Inl (e, v) \<Rightarrow> Inl (e, unlock h v)
            | Inr v \<Rightarrow> dispatch x s2 (unlock h v)) \<and>
         new_events w (state_of (publish x w)) ! length s1 = Invoked h x)) \<and>
   count_list (new_events w (state_of (publish x w))) (Invoked h x)
     \<le> count_list (purge w (callbacks w)) (Some h)"
proof -
  have A: "callbacks (subscribe (Some h) (subscribe (Some h) w0)) = callbacks w0 @ [Some h, Some h]"
    if "live w0 h"
  proof -
    let ?w1 = "w0\<lparr>callbacks := callbacks w0 @ [Some h]\<rparr>"
    have "live ?w1 h" using that by (simp add: live_iff)
    then show ?thesis using that by (simp add: subscribe_live)
  qed
  have B: "count_list (new_events w w') (Invoked h x) = count_list (callbacks w) (Some h) \<and>
      (\<forall>y. Invoked h y \<in> set (new_events w w') \<longrightarrow> y = x) \<and>
      count_list (callbacks w) (Some h) \<le> count_list (callbacks w') (Some h) \<and>
      ((\<forall>k < length (heap w'). Subscribe (Some h) \<notin> set (callback (heap w' ! k) x)) \<longrightarrow>
         count_list (callbacks w') (Some h) = count_list (callbacks w) (Some h))"
    if l: "live w h" and p: "publish x w = Inr w'" and l': "live w' h"
  proof -
    have pc: "count_list (purge w (callbacks w)) (Some h) = count_list (callbacks w) (Some h)"
      using l by (rule purge_count_live)
    have 1: "count_list (new_events w w') (Invoked h x) = count_list (callbacks w) (Some h)"
      using live_invocations [OF p l'] pc by simp
    have 2: "y = x" if "Invoked h y \<in> set (new_events w w')" for y
      using publish_invoked(1) [of h y w x] that p by simp
    from publish_added [of x w] p obtain added where
      ad: "callbacks w' = purge w (callbacks w) @ added"
        "\<forall>c \<in> set added. \<exists>k < length (heap w'). Subscribe c \<in> set (callback (heap w' ! k) x)"
      by auto
    have 3: "count_list (callbacks w) (Some h) \<le> count_list (callbacks w') (Some h)"
      using ad(1) pc by simp
    have 4: "count_list (callbacks w') (Some h) = count_list (callbacks w) (Some h)"
      if "\<forall>k < length (heap w'). Subscribe (Some h) \<notin> set (callback (heap w' ! k) x)"
    proof -
      from that ad(2) have "Some h \<notin> set added" by blast
      then show ?thesis using ad(1) pc by simp
    qed
    from 1 2 3 4 show ?thesis by blast
  qed
  have AB: "(live w0 h \<longrightarrow>
      callbacks (subscribe (Some h) (subscribe (Some h) w0)) = callbacks w0 @ [Some h, Some h] \<and>
      count_list (callbacks (subscribe (Some h) (subscribe (Some h) w0))) (Some h)
        = count_list (callbacks w0) (Some h) + 2) \<and>
   (live w h \<and> publish x w = Inr w' \<and> live w' h \<longrightarrow>
      count_list (new_events w w') (Invoked h x) = count_list (callbacks w) (Some h) \<and>
      (\<forall>y. Invoked h y \<in> set (new_events w w') \<longrightarrow> y = x) \<and>
      count_list (callbacks w) (Some h) \<le> count_list (callbacks w') (Some h) \<and>
      ((\<forall>k < length (heap w'). Subscribe (Some h) \<notin> set (callback (heap w' ! k) x)) \<longrightarrow>
         count_list (callbacks w') (Some h) = count_list (callbacks w) (Some h)))"
    using A B by simp
  have C: "live w h \<longrightarrow>
      count_list (purge w (callbacks w)) (Some h) = count_list (callbacks w) (Some h)"
    by (simp add: purge_count_live)
  have D: "purge w (callbacks w) = s1 @ Some h # s2 \<and>
    dispatch x s1 (w\<lparr>callbacks := purge w (callbacks w)\<rparr>) = Inr wa \<and> live wa h \<longrightarrow>
      (\<exists>wp. lock (Some h) wa = Some (h, wp) \<and>
         publish x w =
           (case run (callback (heap wp ! h) x) (wp\<lparr>trace := trace wp @ [Invoked h x]\<rparr>) of
              Inl (e, v) \<Rightarrow> Inl (e, unlock h v)
            | Inr v \<Rightarrow> dispatch x s2 (unlock h v)) \<and>
         new_events w (state_of (publish x w)) ! length s1 = Invoked h x)"
  proof
    assume "purge w (callbacks w) = s1 @ Some h # s2 \<and>
      dispatch x s1 (w\<lparr>callbacks := purge w (callbacks w)\<rparr>) = Inr wa \<and> live wa h"
    then have c: "purge w (callbacks w) = s1 @ Some h # s2"
      and d: "dispatch x s1 (w\<lparr>callbacks := purge w (callbacks w)\<rparr>) = Inr wa"
      and l: "live wa h" by blast+
    from publish_reach [OF c d l] show "\<exists>wp. lock (Some h) wa = Some (h, wp) \<and>
         publish x w =
           (case run (callback (heap wp ! h) x) (wp\<lparr>trace := trace wp @ [Invoked h x]\<rparr>) of
              Inl (e, v) \<Rightarrow> Inl (e, unlock h v)
            | Inr v \<Rightarrow> dispatch x s2 (unlock h v)) \<and>
         new_events w (state_of (publish x w)) ! length s1 = Invoked h x" .
  qed
  note E = invoked_count_le [of w x h]
  show ?thesis
    by (rule conjI [OF AB [THEN conjunct1] conjI [OF AB [THEN conjunct2] conjI [OF C conjI [OF D E]]]])
qed

theorem subscribe_twice_dispatches_twice_witness:
  "live ex_twice_before 1 \<and>
   subscribe (Some 1) (subscribe (Some 1) ex_twice_before) = ex_twice \<and>
   count_list (callbacks ex_twice) (Some 1) = 2 \<and>
   live ex_twice 1 \<and>
   count_list (purge ex_twice (callbacks ex_twice)) (Some 1) = 2 \<and>
   (purge ex_twice (callbacks ex_twice) = [] @ Some 1 # [Some 1] \<and>
    dispatch (5, ''x'') [] (ex_twice\<lparr>callbacks := purge ex_twice (callbacks ex_twice)\<rparr>)
      = Inr ex_twice \<and>
    live ex_twice 1) \<and>
   lock (Some 1) ex_twice = Some (1, ex_twice_locked) \<and>
   (purge ex_twice (callbacks ex_twice) = [Some 1] @ Some 1 # [] \<and>
    dispatch (5, ''x'') [Some 1] (ex_twice\<lparr>callbacks := purge ex_twice (callbacks ex_twice)\<rparr>)
      = Inr ex_twice_mid \<and>
    live ex_twice_mid 1) \<and>
   lock (Some 1) ex_twice_mid = Some (1, ex_twice_relocked) \<and>
   publish (5, ''x'') ex_twice = Inr ex_twice_done \<and>
   live ex_twice_done 1 \<and>
   length (heap ex_twice_done) = length (heap ex_twice) + 2 \<and>
   new_events ex_twice ex_twice_done ! 0 = Invoked 1 (5, ''x'') \<and>
   new_events ex_twice ex_twice_done ! 1 = Invoked 1 (5, ''x'') \<and>
   count_list (new_events ex_twice ex_twice_done) (Invoked 1 (5, ''x'')) = 2 \<and>
   count_list (callbacks ex_twice_done) (Some 1) = 2"
proof -
  note t1 = subscribe_twice_dispatches_twice
    [of ex_twice_before 1 ex_twice "(5, ''x'')" ex_twice_done "[]" "[Some 1]" ex_twice]
  note t2 = subscribe_twice_dispatches_twice
    [of ex_twice_before 1 ex_twice "(5, ''x'')" ex_twice_done "[Some 1]" "[]" ex_twice_mid]
  have a: "live ex_twice_before 1"
    by (simp add: ex_twice_before_def block_def live_iff)
  have b: "subscribe (Some 1) (subscribe (Some 1) ex_twice_before) = ex_twice"
    by (simp add: ex_twice_before_def ex_twice_def block_def subscribe_def expired_def
        use_count_def)
  have z: "count_list (callbacks ex_twice_before) (Some 1) = 0"
    by (simp add: ex_twice_before_def)
  from t1 [THEN conjunct1, THEN mp, OF a, THEN conjunct2, unfolded b z]
  have c: "count_list (callbacks ex_twice) (Some 1) = 2" by simp
  have d: "live ex_twice 1"
    by (simp add: ex_twice_def block_def live_iff)
  have e: "count_list (purge ex_twice (callbacks ex_twice)) (Some 1) = 2"
    using t1 [THEN conjunct2, THEN conjunct2, THEN conjunct1, THEN mp, OF d] c by simp
  have f: "purge ex_twice (callbacks ex_twice) = [] @ Some 1 # [Some 1] \<and>
      dispatch (5, ''x'') [] (ex_twice\<lparr>callbacks := purge ex_twice (callbacks ex_twice)\<rparr>)
        = Inr ex_twice \<and>
      live ex_twice 1"
    by (simp add: ex_twice_def block_def expired_def use_count_def live_iff)
  have g: "lock (Some 1) ex_twice = Some (1, ex_twice_locked)"
    by (simp add: ex_twice_def ex_twice_locked_def block_def lock_def expired_def use_count_def)
  have h: "purge ex_twice (callbacks ex_twice) = [Some 1] @ Some 1 # [] \<and>
      dispatch (5, ''x'') [Some 1] (ex_twice\<lparr>callbacks := purge ex_twice (callbacks ex_twice)\<rparr>)
        = Inr ex_twice_mid \<and>
      live ex_twice_mid 1"
    by (simp add: ex_twice_def ex_twice_mid_def block_def maker_def expired_def use_count_def
        lock_def unlock_def live_iff)
  have i: "lock (Some 1) ex_twice_mid = Some (1, ex_twice_relocked)"
    by (simp add: ex_twice_mid_def ex_twice_relocked_def block_def lock_def expired_def
        use_count_def)
  from t1 [THEN conjunct2, THEN conjunct2, THEN conjunct2, THEN conjunct1, THEN mp, OF f]
  obtain wp where
    lk1: "lock (Some 1) ex_twice = Some (1, wp)"
    and pub1: "publish (5, ''x'') ex_twice =
      (case run (callback (heap wp ! 1) (5, ''x''))
              (wp\<lparr>trace := trace wp @ [Invoked 1 (5, ''x'')]\<rparr>) of
         Inl (e, v) \<Rightarrow> Inl (e, unlock 1 v)
       | Inr v \<Rightarrow> dispatch (5, ''x'') [Some 1] (unlock 1 v))"
    and ev1: "new_events ex_twice (state_of (publish (5, ''x'') ex_twice))
        ! length ([] :: weak_ptr list) = Invoked 1 (5, ''x'')"
    by blast
  from lk1 g have wp1: "wp = ex_twice_locked" by simp
  have j: "publish (5, ''x'') ex_twice = Inr ex_twice_done"
    unfolding pub1 wp1
    by (simp add: ex_twice_locked_def ex_twice_done_def block_def maker_def unlock_def lock_def
        expired_def use_count_def)
  from t2 [THEN conjunct2, THEN conjunct2, THEN conjunct2, THEN conjunct1, THEN mp, OF h]
  obtain wq where
    lk2: "lock (Some 1) ex_twice_mid = Some (1, wq)"
    and pub2: "publish (5, ''x'') ex_twice =
      (case run (callback (heap wq ! 1) (5, ''x''))
              (wq\<lparr>trace := trace wq @ [Invoked 1 (5, ''x'')]\<rparr>) of
         Inl (e, v) \<Rightarrow> Inl (e, unlock 1 v)
       | Inr v \<Rightarrow> dispatch (5, ''x'') [] (unlock 1 v))"
    and ev2: "new_events ex_twice (state_of (publish (5, ''x'') ex_twice))
        ! length [Some (1 :: nat)] = Invoked 1 (5, ''x'')"
    by blast
  from lk2 i have wq: "wq = ex_twice_relocked" by simp
  have j2: "publish (5, ''x'') ex_twice = Inr ex_twice_done"
    unfolding pub2 wq
    by (simp add: ex_twice_relocked_def ex_twice_done_def block_def maker_def unlock_def)
  have k: "live ex_twice_done 1"
    by (simp add: ex_twice_done_def block_def live_iff)
  have l: "length (heap ex_twice_done) = length (heap ex_twice) + 2"
    by (simp add: ex_twice_def ex_twice_done_def)
  have m: "new_events ex_twice ex_twice_done ! 0 = Invoked 1 (5, ''x'')"
    using ev1 by (simp add: j)
  have n: "new_events ex_twice ex_twice_done ! 1 = Invoked 1 (5, ''x'')"
    using ev2 by (simp add: j2)
  note u = t1 [THEN conjunct2, THEN conjunct1, THEN mp, OF conjI [OF d conjI [OF j k]]]
  have o: "count_list (new_events ex_twice ex_twice_done) (Invoked 1 (5, ''x'')) = 2"
    using u [THEN conjunct1] c by simp
  have nosub: "\<forall>k < length (heap ex_twice_done).
      Subscribe (Some 1) \<notin> set (callback (heap ex_twice_done ! k) (5, ''x''))"
    by (simp add: ex_twice_done_def block_def idle_def maker_def nth_Cons split: nat.splits)
  have p: "count_list (callbacks ex_twice_done) (Some 1) = 2"
    using u [THEN conjunct2, THEN conjunct2, THEN conjunct2, THEN mp, OF nosub] c by simp
  show ?thesis
    by (rule conjI [OF a conjI [OF b conjI [OF c conjI [OF d conjI [OF e conjI [OF f conjI [OF g conjI [OF h conjI [OF i conjI [OF j conjI [OF k conjI [OF l conjI [OF m conjI [OF n conjI [OF o p]]]]]]]]]]]]]]])
qed

text \<open>
  C9. Listener code changes the sequence only by calling \<open>subscribe\<close>, which leaves it
  alone or appends the one observation at the end; \<open>lock()\<close> and the destructor of the
  temporary leave it alone. So when \<open>publish\<close> is over the sequence is what the purge
  kept, followed by observations that callbacks subscribed. An entry of the snapshot
  whose handle is expired by then is therefore still in the sequence; the purge of the
  next \<open>publish\<close> drops it, and it is not in the sequence after that \<open>publish\<close>.
\<close>

theorem sequence_mutated_by_subscribe_and_purge_only:
  "(\<forall>a. (\<forall>c. a \<noteq> Subscribe c) \<longrightarrow> callbacks (state_of (perform a w)) = callbacks w) \<and>
   callbacks (subscribe c w) = (if expired w c then callbacks w else callbacks w @ [c]) \<and>
   (lock c w = Some (h, wp) \<longrightarrow> callbacks wp = callbacks w) \<and>
   callbacks (unlock h w) = callbacks w \<and>
   (\<exists>added. callbacks (state_of (publish x w)) = purge w (callbacks w) @ added \<and>
      (\<forall>c \<in> set added. \<exists>k < length (heap (state_of (publish x w))).
         Subscribe c \<in> set (callback (heap (state_of (publish x w)) ! k) x))) \<and>
   (c \<in> set (purge w (callbacks w)) \<and> expired (state_of (publish x w)) c \<longrightarrow>
      c \<in> set (callbacks (state_of (publish x w))) \<and>
      c \<notin> set (purge (state_of (publish x w)) (callbacks (state_of (publish x w)))) \<and>
      c \<notin> set (callbacks (state_of (publish x' (state_of (publish x w))))))"
proof -
  let ?f = "state_of (publish x w)"
  have 1: "callbacks (state_of (perform a w)) = callbacks w" if "\<forall>c. a \<noteq> Subscribe c" for a
    using that by (cases a) simp_all
  have 2: "callbacks (subscribe c w) = (if expired w c then callbacks w else callbacks w @ [c])"
    by (simp add: subscribe_def)
  have 3: "callbacks wp = callbacks w" if "lock c w = Some (h, wp)"
    using that by (rule lock_Some(6))
  note 4 = unlock_callbacks [of h w]
  note 5 = publish_added [of x w]
  have 6: "c \<in> set (callbacks ?f) \<and> c \<notin> set (purge ?f (callbacks ?f)) \<and>
      c \<notin> set (callbacks (state_of (publish x' ?f)))"
    if c: "c \<in> set (purge w (callbacks w))" and e: "expired ?f c"
  proof -
    from c obtain k where k: "c = Some k" "live w k" by (auto dest: purge_live)
    let ?w1 = "w\<lparr>callbacks := purge w (callbacks w)\<rparr>"
    have "k < length (heap ?w1)" using k(2) by (simp add: live_iff)
    with publish_grows [of w x] have r: "k < length (heap ?f)" by (simp add: grows_def)
    have d: "\<not> live ?f k" using e k(1) by (simp add: live_def)
    have "c \<in> set (callbacks ?f)" using 5 c by auto
    moreover have "c \<notin> set (purge ?f (callbacks ?f))" using e by (simp add: purge_filter)
    moreover have "c \<notin> set (callbacks (state_of (publish x' ?f)))"
      using dead_not_listed [OF r d] k(1) by simp
    ultimately show ?thesis by simp
  qed
  from 1 2 3 4 5 6 show ?thesis by (intro conjI allI impI) blast+
qed

theorem sequence_mutated_by_subscribe_and_purge_only_witness:
  "callbacks (state_of (perform (Release 1) ex_self)) = callbacks ex_self \<and>
   lock (Some 1) ex_self = Some (1, ex_self_locked) \<and>
   callbacks ex_self_locked = callbacks ex_self \<and>
   state_of (publish (5, ''x'') ex_self) = ex_self_done \<and>
   (Some 1 \<in> set (purge ex_self (callbacks ex_self)) \<and> expired ex_self_done (Some 1)) \<and>
   Some 1 \<in> set (callbacks ex_self_done) \<and>
   Some 1 \<notin> set (purge ex_self_done (callbacks ex_self_done)) \<and>
   Some 1 \<notin> set (callbacks (state_of (publish (6, ''y'') ex_self_done)))"
proof -
  note t = sequence_mutated_by_subscribe_and_purge_only
    [of ex_self "Some 1" 1 ex_self_locked "(5, ''x'')" "(6, ''y'')"]
  have a: "state_of (publish (5, ''x'') ex_self) = ex_self_done"
    by (simp add: ex_self_def ex_self_done_def block_def idle_def self_release_def publish_def
        expired_def use_count_def lock_def unlock_def)
  have b: "lock (Some 1) ex_self = Some (1, ex_self_locked)"
    by (simp add: ex_self_def ex_self_locked_def block_def lock_def expired_def use_count_def)
  have c: "Some 1 \<in> set (purge ex_self (callbacks ex_self)) \<and> expired ex_self_done (Some 1)"
    by (simp add: ex_self_def ex_self_done_def block_def expired_def use_count_def)
  have d: "\<forall>c. Release 1 \<noteq> (Subscribe c :: (int \<times> string) action)" by simp
  have "callbacks (state_of (perform (Release 1) ex_self)) = callbacks ex_self"
    using t [THEN conjunct1, THEN spec, THEN mp, OF d] .
  moreover have "callbacks ex_self_locked = callbacks ex_self"
    using t [THEN conjunct2, THEN conjunct2, THEN conjunct1, THEN mp, OF b] .
  moreover have "Some 1 \<in> set (callbacks ex_self_done) \<and>
      Some 1 \<notin> set (purge ex_self_done (callbacks ex_self_done)) \<and>
      Some 1 \<notin> set (callbacks (state_of (publish (6, ''y'') ex_self_done)))"
    using t [THEN conjunct2, THEN conjunct2, THEN conjunct2, THEN conjunct2, THEN conjunct2,
             unfolded a, THEN mp, OF c] .
  ultimately show ?thesis using a b c by simp
qed

text \<open>
  C10. For a handle whose \<open>lock()\<close> succeeded, the dispatch loop runs the callback
  between taking and dropping its own strong reference. At every point of the
  callback's run, whatever it has released by then, the handle is live. If the
  publisher held no other temporary and no listener-held reference is left when the
  callback is over, the publisher's reference is the last one, and the handle is
  expired once it is dropped.
\<close>

theorem lock_keeps_callback_alive:
  assumes "lock (Some h) w = Some (h, wp)"
  shows "dispatch x (Some h # cs) w =
           (case run (callback (heap wp ! h) x) (wp\<lparr>trace := trace wp @ [Invoked h x]\<rparr>) of
              Inl (e, w') \<Rightarrow> Inl (e, unlock h w')
            | Inr w' \<Rightarrow> dispatch x cs (unlock h w')) \<and>
         run (callback (heap wp ! h) x) (wp\<lparr>trace := trace wp @ [Invoked h x]\<rparr>) =
           (case run (take n (callback (heap wp ! h) x)) (wp\<lparr>trace := trace wp @ [Invoked h x]\<rparr>) of
              Inl ew \<Rightarrow> Inl ew
            | Inr wm \<Rightarrow> run (drop n (callback (heap wp ! h) x)) wm) \<and>
         live (state_of (run (take n (callback (heap wp ! h) x))
                 (wp\<lparr>trace := trace wp @ [Invoked h x]\<rparr>))) h \<and>
         (pins (heap w ! h) = 0 \<and>
          owners (heap (state_of (run (callback (heap wp ! h) x)
                    (wp\<lparr>trace := trace wp @ [Invoked h x]\<rparr>))) ! h) = 0 \<longrightarrow>
            use_count (state_of (run (callback (heap wp ! h) x)
                    (wp\<lparr>trace := trace wp @ [Invoked h x]\<rparr>))) h = 1 \<and>
            \<not> live (unlock h (state_of (run (callback (heap wp ! h) x)
                    (wp\<lparr>trace := trace wp @ [Invoked h x]\<rparr>)))) h)"
proof -
  let ?wi = "wp\<lparr>trace := trace wp @ [Invoked h x]\<rparr>"
  let ?body = "callback (heap wp ! h) x"
  note lk = lock_Some [OF assms]
  have hr: "h < length (heap ?wi)" using lk(3) live_in_range [of wp h] by simp
  have pin: "pins (heap ?wi ! h) = Suc (pins (heap w ! h))" using lk(9) by simp
  have 1: "dispatch x (Some h # cs) w =
      (case run ?body ?wi of Inl (e, w') \<Rightarrow> Inl (e, unlock h w')
       | Inr w' \<Rightarrow> dispatch x cs (unlock h w'))"
    using assms by simp
  have 2: "run ?body ?wi =
      (case run (take n ?body) ?wi of Inl ew \<Rightarrow> Inl ew | Inr wm \<Rightarrow> run (drop n ?body) wm)"
    using run_append [of "take n ?body" "drop n ?body" ?wi] by simp
  have inv: "h < length (heap (state_of (run as ?wi))) \<and>
      pins (heap (state_of (run as ?wi)) ! h) = Suc (pins (heap w ! h))" for as
    using run_grows [of ?wi as] run_pins [OF hr, of as] hr pin by (simp add: grows_def)
  have 3: "live (state_of (run (take n ?body) ?wi)) h"
    using inv [of "take n ?body"] by (simp add: live_iff)
  have 4: "use_count (state_of (run ?body ?wi)) h = 1 \<and>
      \<not> live (unlock h (state_of (run ?body ?wi))) h"
    if "pins (heap w ! h) = 0" and "owners (heap (state_of (run ?body ?wi)) ! h) = 0"
    using inv [of ?body] that by (simp add: use_count_def unlock_def live_iff)
  have 5: "pins (heap w ! h) = 0 \<and> owners (heap (state_of (run ?body ?wi)) ! h) = 0 \<longrightarrow>
      use_count (state_of (run ?body ?wi)) h = 1 \<and>
      \<not> live (unlock h (state_of (run ?body ?wi))) h"
  proof
    assume "pins (heap w ! h) = 0 \<and> owners (heap (state_of (run ?body ?wi)) ! h) = 0"
    then show "use_count (state_of (run ?body ?wi)) h = 1 \<and>
      \<not> live (unlock h (state_of (run ?body ?wi))) h"
      by (elim conjE) (rule 4)
  qed
  show ?thesis
    by (rule conjI [OF 1 conjI [OF 2 conjI [OF 3 5]]])
qed

theorem lock_keeps_callback_alive_witness:
  "lock (Some 1) ex_self = Some (1, ex_self_locked) \<and>
   state_of (run (callback (heap ex_self_locked ! 1) (5, ''x''))
      (ex_self_locked\<lparr>trace := trace ex_self_locked @ [Invoked 1 (5, ''x'')]\<rparr>))
     = ex_self_released \<and>
   take 1 (callback (heap ex_self_locked ! 1) (5, ''x'')) = [Release 1] \<and>
   (pins (heap ex_self ! 1) = 0 \<and> owners (heap ex_self_released ! 1) = 0) \<and>
   live (state_of (run [Release 1]
      (ex_self_locked\<lparr>trace := trace ex_self_locked @ [Invoked 1 (5, ''x'')]\<rparr>))) 1 \<and>
   use_count ex_self_released 1 = 1 \<and>
   \<not> live (unlock 1 ex_self_released) 1"
proof -
  have a: "lock (Some 1) ex_self = Some (1, ex_self_locked)"
    by (simp add: ex_self_def ex_self_locked_def block_def lock_def expired_def use_count_def)
  have b: "state_of (run (callback (heap ex_self_locked ! 1) (5, ''x''))
      (ex_self_locked\<lparr>trace := trace ex_self_locked @ [Invoked 1 (5, ''x'')]\<rparr>))
      = ex_self_released"
    by (simp add: ex_self_locked_def ex_self_released_def block_def self_release_def)
  have c: "take 1 (callback (heap ex_self_locked ! 1) (5, ''x'')) = [Release 1]"
    by (simp add: ex_self_locked_def self_release_def)
  have d: "pins (heap ex_self ! 1) = 0 \<and> owners (heap ex_self_released ! 1) = 0"
    by (simp add: ex_self_def ex_self_released_def block_def)
  note t = lock_keeps_callback_alive [OF a, of "(5, ''x'')" _ 1, unfolded b c]
  have e: "live (state_of (run [Release 1]
      (ex_self_locked\<lparr>trace := trace ex_self_locked @ [Invoked 1 (5, ''x'')]\<rparr>))) 1"
    by (rule t [THEN conjunct2, THEN conjunct2, THEN conjunct1])
  have f: "use_count ex_self_released 1 = 1 \<and> \<not> live (unlock 1 ex_self_released) 1"
    by (rule t [THEN conjunct2, THEN conjunct2, THEN conjunct2, THEN mp, OF d])
  from a b c d e f show ?thesis by simp
qed

end
